theory Spec2Isabelle
  imports Main
begin

section \<open>The node tree handed over by the HTML parser\<close>

text \<open>
  The package reads a tree of \<^verbatim>\<open>*html.Node\<close> values built by
  \<^verbatim>\<open>golang.org/x/net/html\<close>. Of a node it reads the node type, the element
  kind (\<^verbatim>\<open>DataAtom\<close>), the text payload (\<^verbatim>\<open>Data\<close>), the attribute list
  (key and value of each attribute, in order) and the children
  (\<^verbatim>\<open>FirstChild\<close>/\<^verbatim>\<open>NextSibling\<close>, here a list). The tree is only read,
  never written, so a node is modelled by its value.

  The definitions follow the parser of \<^verbatim>\<open>microdata.go\<close>: the types
  \<^verbatim>\<open>Microdata\<close>, \<^verbatim>\<open>Item\<close> and \<^verbatim>\<open>parser\<close> and the functions
  \<^verbatim>\<open>parse\<close>, \<^verbatim>\<open>readItem\<close>, \<^verbatim>\<open>getAttr\<close> and \<^verbatim>\<open>walkNodes\<close>
  (lines 427-645 of the file). Line numbers in the comments refer to that file.
\<close>

datatype NodeType =
  ErrorNode | TextNode | DocumentNode | ElementNode | CommentNode | DoctypeNode

text \<open>
  The element kinds that \<^verbatim>\<open>readItem\<close> distinguishes; every other value of
  \<^verbatim>\<open>atom.Atom\<close> (also 0, for an unknown tag or a text node) is \<open>Atom_Other\<close>.
\<close>

datatype Atom =
  Atom_Meta
  | Atom_Audio | Atom_Embed | Atom_Iframe | Atom_Img | Atom_Source | Atom_Track | Atom_Video
  | Atom_A | Atom_Area | Atom_Link
  | Atom_Data | Atom_Meter
  | Atom_Time
  | Atom_Other

datatype Node =
  Node (Type: NodeType) (DataAtom: Atom) (Data: string)
       (Attr: "(string \<times> string) list") (Children: "Node list")

section \<open>The microdata model\<close>

text \<open>
  \<^verbatim>\<open>type ValueList []interface{}\<close> holds strings and \<^verbatim>\<open>*Item\<close>;
  \<^verbatim>\<open>type PropertyMap map[string]ValueList\<close>. The field \<^verbatim>\<open>Id\<close> is
  \<open>ItemId\<close> here.
\<close>

datatype Value = VString string | VItem Item
  and Item = Item (Types: "string list")
                  (Properties: "string \<Rightarrow> Value list option")
                  (ItemId: string)

record Microdata =
  Items :: "Item list"

datatype error = Error string

text \<open>
  \<^verbatim>\<open>baseURL\<close> is only used as \<^verbatim>\<open>p.baseURL.Parse(s)\<close> followed by
  \<^verbatim>\<open>u.String()\<close>; the field holds that composition, \<open>None\<close> when
  \<^verbatim>\<open>Parse\<close> returns an error (\<^verbatim>\<open>net/url\<close> is not part of the package).
\<close>

record parser =
  tree :: Node
  data :: Microdata
  baseURL :: "string \<Rightarrow> string option"
  identifiedNodes :: "string \<Rightarrow> Node option"

text \<open>\<^verbatim>\<open>append(i.Properties[property], value)\<close>: a missing key reads as the empty list.\<close>

definition appendValue :: "string \<Rightarrow> Value \<Rightarrow> Item \<Rightarrow> Item" where
  "appendValue property v i =
     Item (Types i)
          ((Properties i)(property \<mapsto>
             (case Properties i property of None \<Rightarrow> [] | Some vs \<Rightarrow> vs) @ [v]))
          (ItemId i)"

definition addString :: "string \<Rightarrow> string \<Rightarrow> Item \<Rightarrow> Item" where
  "addString property val i = appendValue property (VString val) i"

definition addItem :: "string \<Rightarrow> Item \<Rightarrow> Item \<Rightarrow> Item" where
  "addItem property val i = appendValue property (VItem val) i"

definition addType :: "string \<Rightarrow> Item \<Rightarrow> Item" where
  "addType val i = Item (Types i @ [val]) (Properties i) (ItemId i)"

definition setId :: "string \<Rightarrow> Item \<Rightarrow> Item" where
  "setId u i = Item (Types i) (Properties i) u"

definition NewItem :: Item where
  "NewItem = Item [] Map.empty []"

section \<open>Helpers of the package and of the Go library\<close>

text \<open>\<^verbatim>\<open>getAttr\<close>: the value of the first attribute with the given key.\<close>

fun lookupAttr :: "string \<Rightarrow> (string \<times> string) list \<Rightarrow> string option" where
  "lookupAttr attribute [] = None"
| "lookupAttr attribute ((k, v) # rest) =
     (if attribute = k then Some v else lookupAttr attribute rest)"

definition getAttr :: "string \<Rightarrow> Node \<Rightarrow> string option" where
  "getAttr attribute node = lookupAttr attribute (Attr node)"

text \<open>
  \<^verbatim>\<open>strings.Split(s, " ")\<close>: the pieces of \<open>s\<close> between single spaces; the
  empty string gives one empty piece, two adjacent spaces an empty piece between them.
\<close>

fun Split :: "string \<Rightarrow> string list" where
  "Split [] = [[]]"
| "Split (c # cs) =
     (if c = CHR '' '' then [] # Split cs
      else (case Split cs of [] \<Rightarrow> [[c]] | t # ts \<Rightarrow> (c # t) # ts))"

text \<open>
  \<^verbatim>\<open>walkNodes(n, f)\<close> calls \<open>f\<close> on \<open>n\<close> and then walks the children
  in order. The closure \<open>f\<close> updates captured variables; they are the state \<open>s\<close>.
\<close>

fun walkNodes :: "Node \<Rightarrow> (Node \<Rightarrow> 's \<Rightarrow> 's) \<Rightarrow> 's \<Rightarrow> 's" where
  "walkNodes (Node t a d at cs) f s =
     fold (\<lambda>c. walkNodes c f) cs (f (Node t a d at cs) s)"

text \<open>
  A loop whose body may fail to return: the state is threaded through the elements in
  order and the loop returns nothing as soon as one call of the body returns nothing.
\<close>

fun forEach :: "('s \<Rightarrow> 'a \<Rightarrow> 's option) \<Rightarrow> 's \<Rightarrow> 'a list \<Rightarrow> 's option" where
  "forEach body s [] = Some s"
| "forEach body s (x # xs) =
     (case body s x of None \<Rightarrow> None | Some s' \<Rightarrow> forEach body s' xs)"

section \<open>readItem\<close>

text \<open>The text of a node: lines 583-589, every text node of the subtree in walk order.\<close>

definition textOf :: "Node \<Rightarrow> string" where
  "textOf node =
     walkNodes node (\<lambda>n buf. if Type n = TextNode then buf @ Data n else buf) []"

text \<open>
  The value of the variable \<^verbatim>\<open>propValue\<close> after the switch on
  \<^verbatim>\<open>node.DataAtom\<close> (lines 555-590); it starts as the empty string.
\<close>

definition propValue :: "parser \<Rightarrow> Node \<Rightarrow> string" where
  "propValue p node =
     (if DataAtom node = Atom_Meta then
        (case getAttr ''content'' node of Some v \<Rightarrow> v | None \<Rightarrow> [])
      else if DataAtom node \<in> set [Atom_Audio, Atom_Embed, Atom_Iframe, Atom_Img,
                                     Atom_Source, Atom_Track, Atom_Video] then
        (case getAttr ''src'' node of
           Some v \<Rightarrow> (case baseURL p v of Some u \<Rightarrow> u | None \<Rightarrow> [])
         | None \<Rightarrow> [])
      else if DataAtom node \<in> set [Atom_A, Atom_Area, Atom_Link] then
        (case getAttr ''href'' node of
           Some v \<Rightarrow> (case baseURL p v of Some u \<Rightarrow> u | None \<Rightarrow> [])
         | None \<Rightarrow> [])
      else if DataAtom node \<in> set [Atom_Data, Atom_Meter] then
        (case getAttr ''value'' node of Some v \<Rightarrow> v | None \<Rightarrow> [])
      else if DataAtom node = Atom_Time then
        (case getAttr ''datetime'' node of Some v \<Rightarrow> v | None \<Rightarrow> [])
      else textOf node)"

text \<open>Lines 548-552: the sub-item goes under every non-empty name of the itemprop list.\<close>

definition addItems :: "string \<Rightarrow> Item \<Rightarrow> Item \<Rightarrow> Item" where
  "addItems itemprops subItem item =
     fold (\<lambda>propName i. if length propName > 0 then addItem propName subItem i else i)
          (Split itemprops) item"

text \<open>Lines 592-598: a non-empty value goes under every non-empty name.\<close>

definition addStrings :: "string \<Rightarrow> string \<Rightarrow> Item \<Rightarrow> Item" where
  "addStrings itemprops val item =
     (if length val > 0 then
        fold (\<lambda>propName i. if length propName > 0 then addString propName val i else i)
             (Split itemprops) item
      else item)"

text \<open>
  The body of the loops over the itemref tokens (lines 512-518 and 535-541); \<open>rd\<close> is
  the call of \<^verbatim>\<open>p.readItem\<close>.
\<close>

definition readRef ::
  "parser \<Rightarrow> (Item \<Rightarrow> Node \<Rightarrow> Item option) \<Rightarrow> Item \<Rightarrow> string \<Rightarrow> Item option" where
  "readRef p rd item itemref =
     (if length itemref > 0 then
        (case identifiedNodes p itemref of Some n \<Rightarrow> rd item n | None \<Rightarrow> Some item)
      else Some item)"

text \<open>
  \<^verbatim>\<open>readItem\<close> calls itself on children and on the nodes found through itemref
  tokens, so it need not return. The first number bounds the depth of the nested calls:
  a call that would go deeper returns \<open>None\<close>. The item is passed in and returned.
\<close>

fun readItem :: "parser \<Rightarrow> nat \<Rightarrow> Item \<Rightarrow> Node \<Rightarrow> Item option" where
  "readItem p 0 item node = None"
| "readItem p (Suc k) item node =
     (case getAttr ''itemprop'' node of
        Some itemprops \<Rightarrow>
          (case getAttr ''itemscope'' node of
             Some _ \<Rightarrow>
               (case (case getAttr ''itemref'' node of
                        Some itemrefs \<Rightarrow>
                          forEach (readRef p (readItem p k)) NewItem (Split itemrefs)
                      | None \<Rightarrow> Some NewItem) of
                  None \<Rightarrow> None
                | Some subItem \<Rightarrow>
                    (case forEach (readItem p k) subItem (Children node) of
                       None \<Rightarrow> None
                     | Some subItem' \<Rightarrow> Some (addItems itemprops subItem' item)))
           | None \<Rightarrow>
               forEach (readItem p k)
                       (addStrings itemprops (propValue p node) item) (Children node))
      | None \<Rightarrow> forEach (readItem p k) item (Children node))"

section \<open>parse\<close>

text \<open>
  The closure of lines 483-492; its captured variables are \<^verbatim>\<open>toplevelNodes\<close>
  and \<^verbatim>\<open>p.identifiedNodes\<close>.
\<close>

definition scanNode ::
  "Node \<Rightarrow> Node list \<times> (string \<Rightarrow> Node option) \<Rightarrow> Node list \<times> (string \<Rightarrow> Node option)" where
  "scanNode n st =
     (let toplevelNodes = fst st; ids = snd st in
      ((case getAttr ''itemscope'' n of
          Some _ \<Rightarrow>
            (case getAttr ''itemtype'' n of
               Some _ \<Rightarrow> toplevelNodes @ [n]
             | None \<Rightarrow> toplevelNodes)
        | None \<Rightarrow> toplevelNodes),
       (case getAttr ''id'' n of Some i \<Rightarrow> ids(i \<mapsto> n) | None \<Rightarrow> ids)))"

text \<open>Lines 497-509: the types and the id of a top-level item.\<close>

definition readTypes :: "parser \<Rightarrow> Node \<Rightarrow> Item \<Rightarrow> Item" where
  "readTypes p node item =
     (case getAttr ''itemtype'' node of
        Some s \<Rightarrow>
          (let item' = fold (\<lambda>itemtype i. if length itemtype > 0 then addType itemtype i else i)
                            (Split s) item
           in (case getAttr ''itemid'' node of
                 Some s' \<Rightarrow> (case baseURL p s' of Some u \<Rightarrow> setId u item' | None \<Rightarrow> item')
               | None \<Rightarrow> item'))
      | None \<Rightarrow> item)"

text \<open>
  The body of the loop over \<^verbatim>\<open>toplevelNodes\<close> (lines 495-523). The source appends
  the pointer to the new item to \<^verbatim>\<open>p.data.Items\<close> first and fills the item
  afterwards; nothing reads the list in between, so the model appends the filled item.
\<close>

definition parseToplevel :: "parser \<Rightarrow> nat \<Rightarrow> Node \<Rightarrow> Item option" where
  "parseToplevel p k node =
     (case (case getAttr ''itemref'' node of
              Some s \<Rightarrow> forEach (readRef p (readItem p k)) (readTypes p node NewItem) (Split s)
            | None \<Rightarrow> Some (readTypes p node NewItem)) of
        None \<Rightarrow> None
      | Some item \<Rightarrow> forEach (readItem p k) item (Children node))"

definition scan :: "parser \<Rightarrow> Node list \<times> (string \<Rightarrow> Node option)" where
  "scan p = walkNodes (tree p) scanNode ([], identifiedNodes p)"

text \<open>
  \<^verbatim>\<open>parse\<close> returns \<^verbatim>\<open>p.data, nil\<close>; \<open>None\<close> stands for a call that
  does not return within the depth \<open>k\<close>.
\<close>

definition parse :: "parser \<Rightarrow> nat \<Rightarrow> (Microdata \<times> error option) option" where
  "parse p k =
     (let p' = p\<lparr>identifiedNodes := snd (scan p)\<rparr> in
      (case forEach (\<lambda>items node.
                       (case parseToplevel p' k node of
                          None \<Rightarrow> None
                        | Some item \<Rightarrow> Some (items @ [item])))
                    (Items (data p)) (fst (scan p)) of
         None \<Rightarrow> None
       | Some items \<Rightarrow> Some ((data p)\<lparr>Items := items\<rparr>, None)))"

text \<open>The parser that \<^verbatim>\<open>newParser\<close> returns for a tree and a base URL.\<close>

definition newParser :: "Node \<Rightarrow> (string \<Rightarrow> string option) \<Rightarrow> parser" where
  "newParser t u =
     \<lparr>tree = t, data = \<lparr>Items = []\<rparr>, baseURL = u, identifiedNodes = Map.empty\<rparr>"

section \<open>Notions used to state the properties\<close>

text \<open>The nodes of a tree in document order: a node, then its children's subtrees.\<close>

fun preorder :: "Node \<Rightarrow> Node list" where
  "preorder (Node t a d at cs) = Node t a d at cs # concat (map preorder cs)"

text \<open>The nesting depth below a node: 0 for a leaf.\<close>

fun height :: "Node \<Rightarrow> nat" where
  "height (Node t a d at cs) = foldr (\<lambda>c h. max (Suc (height c)) h) cs 0"

text \<open>
  \<open>nested i j\<close>: the item \<open>j\<close> is a property value of \<open>i\<close>, or of an item
  that is itself nested in \<open>i\<close>.
\<close>

inductive nested :: "Item \<Rightarrow> Item \<Rightarrow> bool" where
  direct: "Properties i name = Some vs \<Longrightarrow> VItem j \<in> set vs \<Longrightarrow> nested i j"
| deeper: "Properties i name = Some vs \<Longrightarrow> VItem j \<in> set vs \<Longrightarrow> nested j l \<Longrightarrow> nested i l"

definition bare :: "Item \<Rightarrow> bool" where
  "bare i = (\<forall>j. nested i j \<longrightarrow> Types j = [] \<and> ItemId j = [])"

section \<open>The value table and the reference list, in the words of the specification\<close>

text \<open>
  The text of the descendants of a node: the payloads of the text nodes below it,
  concatenated in document order.
\<close>

definition descendantText :: "Node \<Rightarrow> string" where
  "descendantText node =
     concat (map Data (filter (\<lambda>n. Type n = TextNode) (concat (map preorder (Children node)))))"

text \<open>
  The table of section 4.3, first match by element kind. \<open>None\<close> stands for a node
  that contributes no value: its attribute is missing or the URL does not resolve.
\<close>

definition valueOf :: "(string \<Rightarrow> string option) \<Rightarrow> Node \<Rightarrow> string option" where
  "valueOf resolve node =
     (case DataAtom node of
        Atom_Meta \<Rightarrow> getAttr ''content'' node
      | Atom_Audio \<Rightarrow> Option.bind (getAttr ''src'' node) resolve
      | Atom_Embed \<Rightarrow> Option.bind (getAttr ''src'' node) resolve
      | Atom_Iframe \<Rightarrow> Option.bind (getAttr ''src'' node) resolve
      | Atom_Img \<Rightarrow> Option.bind (getAttr ''src'' node) resolve
      | Atom_Source \<Rightarrow> Option.bind (getAttr ''src'' node) resolve
      | Atom_Track \<Rightarrow> Option.bind (getAttr ''src'' node) resolve
      | Atom_Video \<Rightarrow> Option.bind (getAttr ''src'' node) resolve
      | Atom_A \<Rightarrow> Option.bind (getAttr ''href'' node) resolve
      | Atom_Area \<Rightarrow> Option.bind (getAttr ''href'' node) resolve
      | Atom_Link \<Rightarrow> Option.bind (getAttr ''href'' node) resolve
      | Atom_Data \<Rightarrow> getAttr ''value'' node
      | Atom_Meter \<Rightarrow> getAttr ''value'' node
      | Atom_Time \<Rightarrow> getAttr ''datetime'' node
      | Atom_Other \<Rightarrow> Some (descendantText node))"

text \<open>
  The nodes that the tokens of a reference list resolve to, in token order: an empty
  token and a token without an entry in the id index give no node.
\<close>

definition refNodes :: "parser \<Rightarrow> string \<Rightarrow> Node list" where
  "refNodes p itemrefs =
     concat (map (\<lambda>tok. if tok = [] then []
                         else (case identifiedNodes p tok of Some n \<Rightarrow> [n] | None \<Rightarrow> []))
                 (Split itemrefs))"

section \<open>The calls of readItem\<close>

text \<open>The parser as \<^verbatim>\<open>parse\<close> has it after the scan: the id index is filled.\<close>

definition indexed :: "parser \<Rightarrow> parser" where
  "indexed p = p\<lparr>identifiedNodes := snd (scan p)\<rparr>"

text \<open>
  The nodes on which a call of \<^verbatim>\<open>readItem\<close> on \<open>node\<close> calls
  \<^verbatim>\<open>readItem\<close> again: the nodes its reference list resolves to, when the node
  carries both the property marker and the scope marker, and its children.
\<close>

definition callees :: "parser \<Rightarrow> Node \<Rightarrow> Node list" where
  "callees p node =
     (case getAttr ''itemprop'' node of
        Some _ \<Rightarrow>
          (case getAttr ''itemscope'' node of
             Some _ \<Rightarrow>
               (case getAttr ''itemref'' node of
                  Some itemrefs \<Rightarrow> refNodes p itemrefs
                | None \<Rightarrow> [])
           | None \<Rightarrow> [])
      | None \<Rightarrow> [])
     @ Children node"

section \<open>Example documents\<close>

text \<open>
  A base URL for the examples: \<^verbatim>\<open>http://example.com/\<close>, with the one reference
  \<^verbatim>\<open>%\<close> that \<^verbatim>\<open>net/url\<close> rejects (an invalid escape).
\<close>

definition exampleURL :: "string \<Rightarrow> string option" where
  "exampleURL s = (if s = ''%'' then None else Some (''http://example.com/'' @ s))"

text \<open>
  The tree that \<^verbatim>\<open>html.Parse\<close> builds around the content of a body: a document
  node, the html element, an empty head and the body. None of them has an attribute.
\<close>

definition document :: "Node list \<Rightarrow> Node" where
  "document content =
     Node DocumentNode Atom_Other [] []
       [Node ElementNode Atom_Other ''html'' []
          [Node ElementNode Atom_Other ''head'' [] [],
           Node ElementNode Atom_Other ''body'' [] content]]"

text \<open>
  \<^verbatim>\<open><div itemscope itemtype="A"><span itemprop="p" itemscope itemtype="B" itemid="x">t</span></div>\<close>
\<close>

definition nestedDoc :: Node where
  "nestedDoc =
     Node ElementNode Atom_Other ''div'' [(''itemscope'', []), (''itemtype'', ''A'')]
       [Node ElementNode Atom_Other ''span''
          [(''itemprop'', ''p''), (''itemscope'', []), (''itemtype'', ''B''), (''itemid'', ''x'')]
          [Node TextNode Atom_Other ''t'' [] []]]"

text \<open>\<^verbatim>\<open><meta itemprop="length" content="1.70">\<close>\<close>

definition metaNode :: Node where
  "metaNode =
     Node ElementNode Atom_Meta ''meta'' [(''itemprop'', ''length''), (''content'', ''1.70'')] []"

text \<open>
  \<^verbatim>\<open><div itemscope itemtype="T" itemref="b  a zz"></div>\<close> followed by
  \<^verbatim>\<open><ul><li id="a" itemprop="p">1</li><li id="b" itemprop="p">2</li></ul>\<close>, under
  one root: the reference list names the second list item first, has an empty token and
  a token no element carries as its id.
\<close>

definition refScope :: Node where
  "refScope =
     Node ElementNode Atom_Other ''div''
       [(''itemscope'', []), (''itemtype'', ''T''), (''itemref'', ''b  a zz'')] []"

definition refDoc :: Node where
  "refDoc =
     Node ElementNode Atom_Other ''body'' []
       [refScope,
        Node ElementNode Atom_Other ''ul'' []
          [Node ElementNode Atom_Other ''li'' [(''id'', ''a''), (''itemprop'', ''p'')]
             [Node TextNode Atom_Other ''1'' [] []],
           Node ElementNode Atom_Other ''li'' [(''id'', ''b''), (''itemprop'', ''p'')]
             [Node TextNode Atom_Other ''2'' [] []]]]"

text \<open>\<^verbatim>\<open><meta itemprop="p" content="">\<close>\<close>

definition emptyMeta :: Node where
  "emptyMeta = Node ElementNode Atom_Meta ''meta'' [(''itemprop'', ''p''), (''content'', [])] []"

text \<open>
  \<^verbatim>\<open><div itemscope itemtype="A  A" itemid="%"><span itemprop="p" itemscope itemtype="B" itemid="x"></span></div>\<close>
\<close>

definition idDoc :: Node where
  "idDoc =
     Node ElementNode Atom_Other ''div''
       [(''itemscope'', []), (''itemtype'', ''A  A''), (''itemid'', ''%'')]
       [Node ElementNode Atom_Other ''span''
          [(''itemprop'', ''p''), (''itemscope'', []), (''itemtype'', ''B''), (''itemid'', ''x'')]
          []]"

text \<open>\<^verbatim>\<open><div itemscope><span itemprop="name">Penelope</span></div>\<close>: a scope without a type.\<close>

definition untypedDoc :: Node where
  "untypedDoc =
     Node ElementNode Atom_Other ''div'' [(''itemscope'', [])]
       [Node ElementNode Atom_Other ''span'' [(''itemprop'', ''name'')]
          [Node TextNode Atom_Other ''Penelope'' [] []]]"

text \<open>
  The document of \<^verbatim>\<open>TestNestedItems\<close>, shortened: a typed scope inside another
  typed scope, without a property marker. Written on one line, without white space
  between the tags:
  \<^verbatim>\<open><div itemscope itemtype="Person"><span itemprop="name">Penelope</span>\<close>
  \<^verbatim>\<open><div itemscope itemtype="Breadcrumb"><a itemprop="url" href="users/1"><span itemprop="title">profile</span></a></div></div>\<close>
\<close>

definition breadcrumb :: Node where
  "breadcrumb =
     Node ElementNode Atom_Other ''div'' [(''itemscope'', []), (''itemtype'', ''Breadcrumb'')]
       [Node ElementNode Atom_A ''a'' [(''itemprop'', ''url''), (''href'', ''users/1'')]
          [Node ElementNode Atom_Other ''span'' [(''itemprop'', ''title'')]
             [Node TextNode Atom_Other ''profile'' [] []]]]"

definition personDoc :: Node where
  "personDoc =
     Node ElementNode Atom_Other ''div'' [(''itemscope'', []), (''itemtype'', ''Person'')]
       [Node ElementNode Atom_Other ''span'' [(''itemprop'', ''name'')]
          [Node TextNode Atom_Other ''Penelope'' [] []],
        breadcrumb]"

text \<open>
  \<^verbatim>\<open><div id="outer" itemscope itemtype="T"><span itemprop="p" itemscope itemref="outer"></span></div>\<close>:
  the reference list of the nested scope points at the element that contains it.
\<close>

definition cycSpan :: Node where
  "cycSpan =
     Node ElementNode Atom_Other ''span''
       [(''itemprop'', ''p''), (''itemscope'', []), (''itemref'', ''outer'')] []"

definition cycDoc :: Node where
  "cycDoc =
     Node ElementNode Atom_Other ''div''
       [(''id'', ''outer''), (''itemscope'', []), (''itemtype'', ''T'')] [cycSpan]"

text \<open>
  \<^verbatim>\<open><div itemscope itemtype="T"><span id="a" itemprop="p" itemscope itemref="a"></span></div>\<close>:
  the reference list of the nested scope names the scope itself.
\<close>

definition selfSpan :: Node where
  "selfSpan =
     Node ElementNode Atom_Other ''span''
       [(''id'', ''a''), (''itemprop'', ''p''), (''itemscope'', []), (''itemref'', ''a'')] []"

definition selfDoc :: Node where
  "selfDoc =
     Node ElementNode Atom_Other ''div'' [(''itemscope'', []), (''itemtype'', ''T'')] [selfSpan]"

text \<open>
  \<^verbatim>\<open><body><div itemscope itemtype="T"><span itemprop="p" itemscope itemref="x"></span></div>
  <p id="x"><b itemprop="q">1</b></p></body>\<close>: a nested scope with a reference list
  that leads to no cycle, and a measure that decreases along its calls.
\<close>

definition chainSpan :: Node where
  "chainSpan =
     Node ElementNode Atom_Other ''span''
       [(''itemprop'', ''p''), (''itemscope'', []), (''itemref'', ''x'')] []"

definition chainDiv :: Node where
  "chainDiv =
     Node ElementNode Atom_Other ''div'' [(''itemscope'', []), (''itemtype'', ''T'')] [chainSpan]"

definition chainDoc :: Node where
  "chainDoc =
     Node ElementNode Atom_Other ''body'' []
       [chainDiv,
        Node ElementNode Atom_Other ''p'' [(''id'', ''x'')]
          [Node ElementNode Atom_Other ''b'' [(''itemprop'', ''q'')]
             [Node TextNode Atom_Other ''1'' [] []]]]"

definition chainRank :: "Node \<Rightarrow> nat" where
  "chainRank n =
     (if n = chainSpan then 3 else if n = chainDiv then 4 else if n = chainDoc then 5
      else height n)"

section \<open>Basic facts about the helpers\<close>

lemma fold_walk_children:
  assumes "\<And>c s. c \<in> set cs \<Longrightarrow> walkNodes c f s = fold f (preorder c) s"
  shows "fold (\<lambda>c. walkNodes c f) cs s = fold f (concat (map preorder cs)) s"
  using assms by (induction cs arbitrary: s) simp_all

lemma walkNodes_preorder: "walkNodes n f s = fold f (preorder n) s"
proof (induction n arbitrary: s)
  case (Node t a d at cs)
  show ?case
    by (simp add: fold_walk_children [OF Node.IH])
qed

lemma forEach_append:
  "forEach body s (xs @ ys) =
     (case forEach body s xs of None \<Rightarrow> None | Some s' \<Rightarrow> forEach body s' ys)"
  by (induction xs arbitrary: s) (simp_all split: option.splits)

lemma forEach_total:
  assumes "\<And>s x. x \<in> set xs \<Longrightarrow> \<exists>s'. body s x = Some s'"
  shows "\<exists>s'. forEach body s xs = Some s'"
  using assms
proof (induction xs arbitrary: s)
  case Nil
  then show ?case by simp
next
  case (Cons x xs)
  from Cons.prems [of x s] obtain s1 where s1: "body s x = Some s1" by auto
  from Cons.IH [of s1] Cons.prems obtain s2 where "forEach body s1 xs = Some s2" by auto
  with s1 show ?case by simp
qed

lemma forEach_invariant:
  assumes "forEach body s xs = Some s'" and "P s"
    and "\<And>s x s'. x \<in> set xs \<Longrightarrow> P s \<Longrightarrow> body s x = Some s' \<Longrightarrow> P s'"
  shows "P s'"
  using assms
proof (induction xs arbitrary: s)
  case Nil
  then show ?case by simp
next
  case (Cons x xs)
  from Cons.prems(1) obtain s1 where s1: "body s x = Some s1" and r: "forEach body s1 xs = Some s'"
    by (auto split: option.splits)
  have p1: "P s1" using Cons.prems(3) [of x s s1] Cons.prems(2) s1 by simp
  have step: "\<And>s x' s'. x' \<in> set xs \<Longrightarrow> P s \<Longrightarrow> body s x' = Some s' \<Longrightarrow> P s'"
  proof -
    fix s x' s'
    assume "x' \<in> set xs" "P s" "body s x' = Some s'"
    then show "P s'" using Cons.prems(3) [of x' s s'] by simp
  qed
  show ?case using Cons.IH [OF r p1 step] .
qed

lemma height_child: "c \<in> set (Children n) \<Longrightarrow> height c < height n"
proof (cases n)
  case (Node t a d at cs)
  have "c \<in> set cs \<Longrightarrow> height c < foldr (\<lambda>c h. max (Suc (height c)) h) cs 0"
    by (induction cs) auto
  then show "c \<in> set (Children n) \<Longrightarrow> height c < height n" using Node by simp
qed

lemma preorder_self: "n \<in> set (preorder n)"
  by (cases n) simp

lemma preorder_child: "c \<in> set (Children n) \<Longrightarrow> set (preorder c) \<subseteq> set (preorder n)"
  by (cases n) auto

lemma preorder_closed: "m \<in> set (preorder n) \<Longrightarrow> c \<in> set (Children m) \<Longrightarrow> c \<in> set (preorder n)"
proof (induction n arbitrary: m)
  case (Node t a d at cs)
  show ?case
  proof (cases "m = Node t a d at cs")
    case True
    then show ?thesis using Node.prems preorder_self [of c] by auto
  next
    case False
    then obtain x where x: "x \<in> set cs" "m \<in> set (preorder x)" using Node.prems by auto
    from Node.IH [OF x(1) x(2) Node.prems(2)] x(1) show ?thesis by auto
  qed
qed

lemma appendValue_keeps [simp]:
  "Types (appendValue n v i) = Types i" "ItemId (appendValue n v i) = ItemId i"
  by (simp_all add: appendValue_def)

lemma addItems_keeps [simp]:
  "Types (addItems ps sub i) = Types i" "ItemId (addItems ps sub i) = ItemId i"
proof -
  have "\<And>i. Types (fold (\<lambda>propName i. if length propName > 0 then addItem propName sub i else i) ts i) = Types i
           \<and> ItemId (fold (\<lambda>propName i. if length propName > 0 then addItem propName sub i else i) ts i) = ItemId i" for ts
    by (induction ts) (simp_all add: addItem_def)
  then show "Types (addItems ps sub i) = Types i" "ItemId (addItems ps sub i) = ItemId i"
    by (simp_all add: addItems_def)
qed

lemma addStrings_keeps [simp]:
  "Types (addStrings ps v i) = Types i" "ItemId (addStrings ps v i) = ItemId i"
proof -
  have "\<And>i. Types (fold (\<lambda>propName i. if length propName > 0 then addString propName v i else i) ts i) = Types i
           \<and> ItemId (fold (\<lambda>propName i. if length propName > 0 then addString propName v i else i) ts i) = ItemId i" for ts
    by (induction ts) (simp_all add: addString_def)
  then show "Types (addStrings ps v i) = Types i" "ItemId (addStrings ps v i) = ItemId i"
    by (simp_all add: addStrings_def)
qed

lemma readItem_keeps:
  "readItem p k item node = Some item' \<Longrightarrow> Types item' = Types item \<and> ItemId item' = ItemId item"
proof (induction k arbitrary: item node item')
  case 0
  then show ?case by simp
next
  case (Suc k)
  have loop: "\<And>cs i i'. forEach (readItem p k) i cs = Some i' \<Longrightarrow> Types i' = Types i \<and> ItemId i' = ItemId i"
  proof -
    fix cs i i'
    assume a: "forEach (readItem p k) i cs = Some i'"
    show "Types i' = Types i \<and> ItemId i' = ItemId i"
      by (rule forEach_invariant [OF a, where P = "\<lambda>j. Types j = Types i \<and> ItemId j = ItemId i"])
         (use Suc.IH in auto)
  qed
  show ?case
  proof (cases "getAttr ''itemprop'' node")
    case None
    then show ?thesis using Suc.prems loop by simp
  next
    case (Some ps)
    show ?thesis
    proof (cases "getAttr ''itemscope'' node")
      case None
      then have "forEach (readItem p k) (addStrings ps (propValue p node) item) (Children node) = Some item'"
        using Suc.prems Some by simp
      from loop [OF this] show ?thesis by simp
    next
      case (Some sc)
      then obtain sub where "item' = addItems ps sub item"
        using Suc.prems \<open>getAttr ''itemprop'' node = Some ps\<close> by (auto split: option.splits)
      then show ?thesis by simp
    qed
  qed
qed

lemmas model_defs =
  parse_def newParser_def scan_def scanNode_def getAttr_def parseToplevel_def readTypes_def
  NewItem_def addType_def setId_def addItems_def addStrings_def addItem_def addString_def
  appendValue_def propValue_def textOf_def readRef_def exampleURL_def document_def

lemma nested_same_props: "Properties i = Properties i' \<Longrightarrow> nested i j \<Longrightarrow> nested i' j"
  by (erule nested.cases) (auto intro: nested.intros)

lemma nested_appendValue:
  assumes "nested (appendValue n v i) j"
  shows "nested i j \<or> (\<exists>s. v = VItem s \<and> (j = s \<or> nested s j))"
  using assms
proof (cases rule: nested.cases)
  case (direct name vs)
  then show ?thesis
    by (cases "name = n") (auto simp: appendValue_def intro: nested.direct split: option.splits)
next
  case (deeper name vs j')
  then show ?thesis
    by (cases "name = n") (auto simp: appendValue_def intro: nested.deeper split: option.splits)
qed

lemma bare_NewItem: "bare NewItem"
  by (auto simp: bare_def NewItem_def elim: nested.cases)

lemma bare_same_props: "Properties i = Properties i' \<Longrightarrow> bare i \<Longrightarrow> bare i'"
  unfolding bare_def using nested_same_props [of i' i] by auto

lemma bare_appendValue_string: "bare i \<Longrightarrow> bare (appendValue n (VString s) i)"
  unfolding bare_def using nested_appendValue by blast

lemma bare_appendValue_item:
  "bare i \<Longrightarrow> bare s \<Longrightarrow> Types s = [] \<Longrightarrow> ItemId s = [] \<Longrightarrow> bare (appendValue n (VItem s) i)"
  unfolding bare_def using nested_appendValue by blast

lemma bare_addStrings: "bare i \<Longrightarrow> bare (addStrings ps v i)"
proof -
  have "\<And>i. bare i \<Longrightarrow> bare (fold (\<lambda>propName i. if length propName > 0 then addString propName v i else i) ts i)" for ts
    by (induction ts) (simp_all add: addString_def bare_appendValue_string)
  then show "bare i \<Longrightarrow> bare (addStrings ps v i)" by (simp add: addStrings_def)
qed

lemma bare_addItems:
  assumes "bare s" "Types s = []" "ItemId s = []"
  shows "bare i \<Longrightarrow> bare (addItems ps s i)"
proof -
  have "\<And>i. bare i \<Longrightarrow> bare (fold (\<lambda>propName i. if length propName > 0 then addItem propName s i else i) ts i)" for ts
    by (induction ts) (simp_all add: addItem_def bare_appendValue_item assms)
  then show "bare i \<Longrightarrow> bare (addItems ps s i)" by (simp add: addItems_def)
qed

lemma readRef_invariant:
  assumes "\<And>i n i'. P i \<Longrightarrow> rd i n = Some i' \<Longrightarrow> P i'"
    and "forEach (readRef p rd) i toks = Some i'" and "P i"
  shows "P i'"
proof (rule forEach_invariant [OF assms(2), where P = P])
  show "P i" by (rule assms(3))
next
  fix s x s'
  assume "P s" "readRef p rd s x = Some s'"
  then show "P s'" using assms(1) [of s _ s']
    by (auto simp: readRef_def split: if_splits option.splits)
qed

lemma readItem_bare:
  "readItem p k item node = Some item' \<Longrightarrow> bare item \<Longrightarrow> bare item'"
proof (induction k arbitrary: item node item')
  case 0
  then show ?case by simp
next
  case (Suc k)
  have loop: "\<And>cs i i'. forEach (readItem p k) i cs = Some i' \<Longrightarrow> bare i \<Longrightarrow> bare i'"
  proof -
    fix cs i i'
    assume a: "forEach (readItem p k) i cs = Some i'" and b: "bare i"
    show "bare i'"
      by (rule forEach_invariant [OF a, where P = bare]) (use b Suc.IH in auto)
  qed
  have loopk: "\<And>cs i i'. forEach (readItem p k) i cs = Some i' \<Longrightarrow> Types i' = Types i \<and> ItemId i' = ItemId i"
  proof -
    fix cs i i'
    assume a: "forEach (readItem p k) i cs = Some i'"
    show "Types i' = Types i \<and> ItemId i' = ItemId i"
      by (rule forEach_invariant [OF a, where P = "\<lambda>j. Types j = Types i \<and> ItemId j = ItemId i"])
         (use readItem_keeps in auto)
  qed
  show ?case
  proof (cases "getAttr ''itemprop'' node")
    case None
    then show ?thesis using Suc.prems loop by simp
  next
    case (Some ps)
    note ps = this
    show ?thesis
    proof (cases "getAttr ''itemscope'' node")
      case None
      then have "forEach (readItem p k) (addStrings ps (propValue p node) item) (Children node) = Some item'"
        using Suc.prems ps by simp
      from loop [OF this] show ?thesis using Suc.prems(2) by (simp add: bare_addStrings)
    next
      case (Some sc)
      then obtain sub1 sub where
        s1: "(case getAttr ''itemref'' node of
                Some itemrefs \<Rightarrow> forEach (readRef p (readItem p k)) NewItem (Split itemrefs)
              | None \<Rightarrow> Some NewItem) = Some sub1"
        and s2: "forEach (readItem p k) sub1 (Children node) = Some sub"
        and it: "item' = addItems ps sub item"
        using Suc.prems ps by (auto split: option.splits)
      have "bare sub1 \<and> Types sub1 = [] \<and> ItemId sub1 = []"
      proof (cases "getAttr ''itemref'' node")
        case None
        then show ?thesis using s1 bare_NewItem by (auto simp: NewItem_def)
      next
        case (Some refs)
        then have a: "forEach (readRef p (readItem p k)) NewItem (Split refs) = Some sub1"
          using s1 by simp
        show ?thesis
          by (rule readRef_invariant [OF _ a, where P = "\<lambda>j. bare j \<and> Types j = [] \<and> ItemId j = []"])
             (use Suc.IH readItem_keeps bare_NewItem in \<open>auto simp: NewItem_def\<close>)
      qed
      then have "bare sub \<and> Types sub = [] \<and> ItemId sub = []"
        using loop [OF s2] loopk [OF s2] by simp
      then show ?thesis using it Suc.prems(2) by (simp add: bare_addItems)
    qed
  qed
qed


lemma readTypes_props [simp]: "Properties (readTypes p node i) = Properties i"
proof -
  have "\<And>i. Properties (fold (\<lambda>itemtype i. if length itemtype > 0 then addType itemtype i else i) ts i) = Properties i" for ts
    by (induction ts) (simp_all add: addType_def)
  then show ?thesis
    by (simp add: readTypes_def setId_def Let_def split: option.splits)
qed

lemma parseToplevel_bare:
  assumes "parseToplevel p k node = Some item"
  shows "bare item"
proof -
  have b0: "bare (readTypes p node NewItem)"
    by (rule bare_same_props [OF _ bare_NewItem]) simp
  from assms obtain i1 where
    s1: "(case getAttr ''itemref'' node of
            Some s \<Rightarrow> forEach (readRef p (readItem p k)) (readTypes p node NewItem) (Split s)
          | None \<Rightarrow> Some (readTypes p node NewItem)) = Some i1"
    and s2: "forEach (readItem p k) i1 (Children node) = Some item"
    by (auto simp: parseToplevel_def split: option.splits)
  have "bare i1"
  proof (cases "getAttr ''itemref'' node")
    case None
    then show ?thesis using s1 b0 by simp
  next
    case (Some refs)
    then have a: "forEach (readRef p (readItem p k)) (readTypes p node NewItem) (Split refs) = Some i1"
      using s1 by simp
    show ?thesis
      by (rule readRef_invariant [OF _ a, where P = bare]) (use readItem_bare b0 in auto)
  qed
  show ?thesis
    by (rule forEach_invariant [OF s2, where P = bare]) (use \<open>bare i1\<close> readItem_bare in auto)
qed

section \<open>Nested items carry no types and no id\<close>

text \<open>
  Claim C10. Every item attached as a nested property value, at any depth below a
  top-level item of the result, has an empty \<open>Types\<close> list and an empty id, whatever
  itemtype and itemid attributes its node carries: \<^verbatim>\<open>readItem\<close> creates it with
  \<^verbatim>\<open>NewItem\<close> and only ever appends property values to it.
\<close>

theorem nested_items_bare:
  "parse (newParser t u) k = Some (d, e) \<Longrightarrow> i \<in> set (Items d) \<Longrightarrow> nested i j \<Longrightarrow>
     Types j = [] \<and> ItemId j = []"
proof -
  assume a: "parse (newParser t u) k = Some (d, e)" and i: "i \<in> set (Items d)" and n: "nested i j"
  define p' where "p' = (newParser t u)\<lparr>identifiedNodes := snd (scan (newParser t u))\<rparr>"
  from a obtain items where
    f: "forEach (\<lambda>items node. (case parseToplevel p' k node of None \<Rightarrow> None
                                  | Some item \<Rightarrow> Some (items @ [item])))
                [] (fst (scan (newParser t u))) = Some items"
    and d: "Items d = items"
    by (auto simp: parse_def Let_def p'_def newParser_def split: option.splits)
  have "\<forall>x \<in> set items. bare x"
    by (rule forEach_invariant [OF f, where P = "\<lambda>l. \<forall>x \<in> set l. bare x"])
       (auto split: option.splits dest: parseToplevel_bare)
  then show ?thesis using i d n by (auto simp: bare_def)
qed

theorem nested_items_bare_witness:
  "parse (newParser (document [nestedDoc]) exampleURL) 3 =
     Some (\<lparr>Items = [Item [''A''] [''p'' \<mapsto> [VItem (Item [] Map.empty [])]] [],
                     Item [''B''] Map.empty ''http://example.com/x'']\<rparr>, None)
   \<and> nested (Item [''A''] [''p'' \<mapsto> [VItem (Item [] Map.empty [])]] []) (Item [] Map.empty [])
   \<and> Types (Item [] Map.empty []) = [] \<and> ItemId (Item [] Map.empty []) = []"
proof -
  have h1: "parse (newParser (document [nestedDoc]) exampleURL) 3 =
     Some (\<lparr>Items = [Item [''A''] [''p'' \<mapsto> [VItem (Item [] Map.empty [])]] [],
                     Item [''B''] Map.empty ''http://example.com/x'']\<rparr>, None)"
    by (simp add: model_defs nestedDoc_def numeral_3_eq_3)
  have h2: "Item [''A''] [''p'' \<mapsto> [VItem (Item [] Map.empty [])]] [] \<in>
     set (Items \<lparr>Items = [Item [''A''] [''p'' \<mapsto> [VItem (Item [] Map.empty [])]] [],
                     Item [''B''] Map.empty ''http://example.com/x'']\<rparr>)"
    by simp
  have h3: "nested (Item [''A''] [''p'' \<mapsto> [VItem (Item [] Map.empty [])]] []) (Item [] Map.empty [])"
    by (rule nested.direct [where name = "''p''" and vs = "[VItem (Item [] Map.empty [])]"]) simp_all
  from nested_items_bare [OF h1 h2 h3] h1 h3 show ?thesis by simp
qed

section \<open>The value of a property\<close>

lemma textOf_preorder:
  "textOf node = concat (map Data (filter (\<lambda>n. Type n = TextNode) (preorder node)))"
proof -
  have "\<And>buf. fold (\<lambda>n buf. if Type n = TextNode then buf @ Data n else buf) ns buf =
          buf @ concat (map Data (filter (\<lambda>n. Type n = TextNode) ns))" for ns
    by (induction ns) simp_all
  then show ?thesis by (simp add: textOf_def walkNodes_preorder)
qed

lemma textOf_descendants: "Type node \<noteq> TextNode \<Longrightarrow> textOf node = descendantText node"
  by (cases node) (simp add: textOf_preorder descendantText_def)

lemma addStrings_empty: "addStrings ps [] item = item"
  by (simp add: addStrings_def)

lemma propValue_valueOf:
  assumes "Type node \<noteq> TextNode"
  shows "propValue p node = (case valueOf (baseURL p) node of Some v \<Rightarrow> v | None \<Rightarrow> [])"
  using assms
  by (cases "DataAtom node")
     (simp_all add: propValue_def valueOf_def textOf_descendants split: option.splits)

text \<open>
  Claim C6. A node with a property marker and no scope marker contributes the value the
  table gives for its element kind: the content attribute for meta; the resolved src
  attribute for audio, embed, iframe, img, source, track and video; the resolved href
  attribute for a, area and link; the value attribute for data and meter; the datetime
  attribute for time; the text of its descendants for every other kind. A URL that does
  not resolve gives no value, and the item is left as it was. The walk then goes on
  into the children of the node.
\<close>

theorem readItem_value_dispatch:
  assumes "getAttr ''itemprop'' node = Some itemprops"
    and "getAttr ''itemscope'' node = None"
    and "Type node \<noteq> TextNode"
  shows "readItem p (Suc k) item node =
           forEach (readItem p k)
             (case valueOf (baseURL p) node of
                Some v \<Rightarrow> addStrings itemprops v item
              | None \<Rightarrow> item)
             (Children node)"
proof (cases "valueOf (baseURL p) node")
  case None
  then show ?thesis
    using assms by (simp add: propValue_valueOf addStrings_empty)
next
  case (Some v)
  then show ?thesis
    using assms by (simp add: propValue_valueOf)
qed

theorem readItem_value_dispatch_witness:
  "getAttr ''itemprop'' metaNode = Some ''length''
   \<and> getAttr ''itemscope'' metaNode = None
   \<and> Type metaNode \<noteq> TextNode
   \<and> valueOf exampleURL metaNode = Some ''1.70''
   \<and> readItem (newParser metaNode exampleURL) (Suc 0) NewItem metaNode =
       Some (Item [] [''length'' \<mapsto> [VString ''1.70'']] [])"
proof -
  have h1: "getAttr ''itemprop'' metaNode = Some ''length''"
    by (simp add: metaNode_def getAttr_def)
  have h2: "getAttr ''itemscope'' metaNode = None"
    by (simp add: metaNode_def getAttr_def)
  have h3: "Type metaNode \<noteq> TextNode"
    by (simp add: metaNode_def)
  have v: "valueOf exampleURL metaNode = Some ''1.70''"
    by (simp add: metaNode_def valueOf_def getAttr_def)
  have c: "Children metaNode = []"
    by (simp add: metaNode_def)
  have "readItem (newParser metaNode exampleURL) (Suc 0) NewItem metaNode =
          Some (addStrings ''length'' ''1.70'' NewItem)"
    using readItem_value_dispatch [OF h1 h2 h3, of "newParser metaNode exampleURL" 0 NewItem] v c
    by (simp add: newParser_def)
  then show ?thesis using h1 h2 h3 v
    by (simp add: addStrings_def addString_def appendValue_def NewItem_def)
qed

section \<open>The reference list\<close>

lemma forEach_readRef:
  "forEach (readRef p rd) item toks =
     forEach rd item
       (concat (map (\<lambda>tok. if tok = [] then []
                            else (case identifiedNodes p tok of Some n \<Rightarrow> [n] | None \<Rightarrow> []))
                    toks))"
proof (induction toks arbitrary: item)
  case Nil
  show ?case by simp
next
  case (Cons tok toks)
  show ?case
  proof (cases "tok = []")
    case True
    then show ?thesis using Cons.IH by (simp add: readRef_def)
  next
    case False
    then show ?thesis using Cons.IH
      by (cases "identifiedNodes p tok") (simp_all add: readRef_def split: option.splits)
  qed
qed

text \<open>
  Claim C7. The tokens of the reference list of a scope are handled in the order of the
  attribute: the nodes they resolve to in the id index are read, in token order, like
  children placed before the children of the scope; empty tokens and tokens without an
  entry are skipped. This holds for a top-level scope and for a nested one, so the order
  of the properties follows the tokens and not the place of the nodes in the document.
\<close>

theorem itemref_token_order:
  "(getAttr ''itemref'' node = Some itemrefs \<longrightarrow>
      parseToplevel p k node =
        forEach (readItem p k) (readTypes p node NewItem) (refNodes p itemrefs @ Children node))
   \<and> (getAttr ''itemprop'' node = Some itemprops \<and> getAttr ''itemscope'' node = Some sc
        \<and> getAttr ''itemref'' node = Some itemrefs \<longrightarrow>
      readItem p (Suc k) item node =
        (case forEach (readItem p k) NewItem (refNodes p itemrefs @ Children node) of
           None \<Rightarrow> None
         | Some subItem \<Rightarrow> Some (addItems itemprops subItem item)))"
  by (simp add: parseToplevel_def forEach_readRef refNodes_def forEach_append
           split: option.splits)

theorem itemref_token_order_witness:
  "getAttr ''itemref'' refScope = Some ''b  a zz''
   \<and> refNodes ((newParser refDoc exampleURL)
                  \<lparr>identifiedNodes := snd (scan (newParser refDoc exampleURL))\<rparr>) ''b  a zz'' =
       [Node ElementNode Atom_Other ''li'' [(''id'', ''b''), (''itemprop'', ''p'')]
          [Node TextNode Atom_Other ''2'' [] []],
        Node ElementNode Atom_Other ''li'' [(''id'', ''a''), (''itemprop'', ''p'')]
          [Node TextNode Atom_Other ''1'' [] []]]
   \<and> parseToplevel ((newParser refDoc exampleURL)
                  \<lparr>identifiedNodes := snd (scan (newParser refDoc exampleURL))\<rparr>) 2 refScope =
       Some (Item [''T''] [''p'' \<mapsto> [VString ''2'', VString ''1'']] [])"
proof -
  let ?p = "(newParser refDoc exampleURL)
              \<lparr>identifiedNodes := snd (scan (newParser refDoc exampleURL))\<rparr>"
  have h: "getAttr ''itemref'' refScope = Some ''b  a zz''"
    by (simp add: refScope_def getAttr_def)
  have r: "refNodes ?p ''b  a zz'' =
       [Node ElementNode Atom_Other ''li'' [(''id'', ''b''), (''itemprop'', ''p'')]
          [Node TextNode Atom_Other ''2'' [] []],
        Node ElementNode Atom_Other ''li'' [(''id'', ''a''), (''itemprop'', ''p'')]
          [Node TextNode Atom_Other ''1'' [] []]]"
    by (simp add: refNodes_def refDoc_def refScope_def model_defs)
  have c: "Children refScope = []"
    by (simp add: refScope_def)
  from itemref_token_order [of refScope "''b  a zz''" ?p 2] h
  have "parseToplevel ?p 2 refScope =
          forEach (readItem ?p 2) (readTypes ?p refScope NewItem)
            (refNodes ?p ''b  a zz'' @ Children refScope)"
    by simp
  then have "parseToplevel ?p 2 refScope =
     Some (Item [''T''] [''p'' \<mapsto> [VString ''2'', VString ''1'']] [])"
    unfolding r c
    by (simp add: refScope_def model_defs numeral_2_eq_2)
  then show ?thesis using h r by simp
qed

section \<open>Empty values\<close>

text \<open>
  Claim C5, as the specification states it, fails: \<^verbatim>\<open><meta itemprop="p" content="">\<close>
  has an attribute-sourced value that is the empty string, and reading it adds no entry
  for \<open>p\<close>.
\<close>

theorem empty_attribute_value_counterexample:
  "getAttr ''itemprop'' emptyMeta = Some ''p''
   \<and> DataAtom emptyMeta = Atom_Meta
   \<and> getAttr ''content'' emptyMeta = Some []
   \<and> readItem (newParser emptyMeta exampleURL) (Suc 0) NewItem emptyMeta = Some NewItem
   \<and> Properties NewItem ''p'' = None"
  by (simp add: emptyMeta_def model_defs)

text \<open>
  Claim C5, amended. One test, \<^verbatim>\<open>len(propValue) > 0\<close>, guards every source of a
  value: a node with a property marker and no scope marker whose value is the empty
  string adds no entry, whether the value comes from an attribute (an empty content,
  value or datetime attribute, or a src or href that resolves to the empty string) or
  from a text extraction that yields no character. The walk still goes on into the
  children.
\<close>

theorem empty_value_suppressed:
  assumes "getAttr ''itemprop'' node = Some itemprops"
    and "getAttr ''itemscope'' node = None"
  shows "(propValue p node = [] \<longrightarrow>
            readItem p (Suc k) item node = forEach (readItem p k) item (Children node))
       \<and> (DataAtom node = Atom_Meta \<and> getAttr ''content'' node = Some [] \<longrightarrow> propValue p node = [])
       \<and> (DataAtom node \<in> {Atom_Data, Atom_Meter} \<and> getAttr ''value'' node = Some []
             \<longrightarrow> propValue p node = [])
       \<and> (DataAtom node = Atom_Time \<and> getAttr ''datetime'' node = Some [] \<longrightarrow> propValue p node = [])
       \<and> (DataAtom node \<in> {Atom_Audio, Atom_Embed, Atom_Iframe, Atom_Img, Atom_Source,
                              Atom_Track, Atom_Video}
             \<and> getAttr ''src'' node = Some v \<and> baseURL p v = Some [] \<longrightarrow> propValue p node = [])
       \<and> (DataAtom node \<in> {Atom_A, Atom_Area, Atom_Link}
             \<and> getAttr ''href'' node = Some v \<and> baseURL p v = Some [] \<longrightarrow> propValue p node = [])
       \<and> (DataAtom node = Atom_Other \<and> textOf node = [] \<longrightarrow> propValue p node = [])"
proof -
  have "propValue p node = [] \<longrightarrow>
          readItem p (Suc k) item node = forEach (readItem p k) item (Children node)"
    using assms by (simp add: addStrings_empty)
  moreover have "DataAtom node = Atom_Meta \<and> getAttr ''content'' node = Some [] \<longrightarrow> propValue p node = []"
    by (simp add: propValue_def)
  moreover have "DataAtom node \<in> {Atom_Data, Atom_Meter} \<and> getAttr ''value'' node = Some []
             \<longrightarrow> propValue p node = []"
    by (auto simp: propValue_def)
  moreover have "DataAtom node = Atom_Time \<and> getAttr ''datetime'' node = Some [] \<longrightarrow> propValue p node = []"
    by (simp add: propValue_def)
  moreover have "DataAtom node \<in> {Atom_Audio, Atom_Embed, Atom_Iframe, Atom_Img, Atom_Source,
                              Atom_Track, Atom_Video}
             \<and> getAttr ''src'' node = Some v \<and> baseURL p v = Some [] \<longrightarrow> propValue p node = []"
    by (auto simp: propValue_def)
  moreover have "DataAtom node \<in> {Atom_A, Atom_Area, Atom_Link}
             \<and> getAttr ''href'' node = Some v \<and> baseURL p v = Some [] \<longrightarrow> propValue p node = []"
    by (auto simp: propValue_def)
  moreover have "DataAtom node = Atom_Other \<and> textOf node = [] \<longrightarrow> propValue p node = []"
    by (simp add: propValue_def)
  ultimately show ?thesis by blast
qed

theorem empty_value_suppressed_witness:
  "getAttr ''itemprop'' emptyMeta = Some ''p''
   \<and> getAttr ''itemscope'' emptyMeta = None
   \<and> propValue (newParser emptyMeta exampleURL) emptyMeta = []
   \<and> readItem (newParser emptyMeta exampleURL) (Suc 0) NewItem emptyMeta =
       forEach (readItem (newParser emptyMeta exampleURL) 0) NewItem (Children emptyMeta)"
proof -
  have h1: "getAttr ''itemprop'' emptyMeta = Some ''p''"
    by (simp add: emptyMeta_def getAttr_def)
  have h2: "getAttr ''itemscope'' emptyMeta = None"
    by (simp add: emptyMeta_def getAttr_def)
  have h3: "propValue (newParser emptyMeta exampleURL) emptyMeta = []"
    by (simp add: emptyMeta_def propValue_def getAttr_def)
  from empty_value_suppressed [OF h1 h2, of "newParser emptyMeta exampleURL" 0 NewItem] h1 h2 h3
  show ?thesis by blast
qed

section \<open>Types and id of a top-level item\<close>

lemma fold_addType:
  "fold (\<lambda>itemtype i. if itemtype \<noteq> [] then addType itemtype i else i) ts item =
     Item (Types item @ filter (\<lambda>t. t \<noteq> []) ts) (Properties item) (ItemId item)"
  by (induction ts arbitrary: item) (simp_all add: addType_def)

lemma readTypes_Types:
  "Types (readTypes p node item) =
     (case getAttr ''itemtype'' node of
        Some s \<Rightarrow> Types item @ filter (\<lambda>t. t \<noteq> []) (Split s)
      | None \<Rightarrow> Types item)"
  by (simp add: readTypes_def fold_addType setId_def Let_def split: option.splits)

lemma readTypes_ItemId:
  "ItemId (readTypes p node item) =
     (case getAttr ''itemtype'' node of
        Some s \<Rightarrow>
          (case getAttr ''itemid'' node of
             Some r \<Rightarrow> (case baseURL p r of Some u \<Rightarrow> u | None \<Rightarrow> ItemId item)
           | None \<Rightarrow> ItemId item)
      | None \<Rightarrow> ItemId item)"
  by (simp add: readTypes_def fold_addType setId_def Let_def split: option.splits)

lemma parseToplevel_keeps:
  assumes "parseToplevel p k node = Some item"
  shows "Types item = Types (readTypes p node NewItem)
       \<and> ItemId item = ItemId (readTypes p node NewItem)"
proof -
  let ?P = "\<lambda>j. Types j = Types (readTypes p node NewItem)
                \<and> ItemId j = ItemId (readTypes p node NewItem)"
  from assms obtain i1 where
    s1: "(case getAttr ''itemref'' node of
            Some s \<Rightarrow> forEach (readRef p (readItem p k)) (readTypes p node NewItem) (Split s)
          | None \<Rightarrow> Some (readTypes p node NewItem)) = Some i1"
    and s2: "forEach (readItem p k) i1 (Children node) = Some item"
    by (auto simp: parseToplevel_def split: option.splits)
  have "?P i1"
  proof (cases "getAttr ''itemref'' node")
    case None
    then show ?thesis using s1 by auto
  next
    case (Some refs)
    then have a: "forEach (readRef p (readItem p k)) (readTypes p node NewItem) (Split refs) = Some i1"
      using s1 by simp
    show ?thesis
      by (rule readRef_invariant [OF _ a, where P = ?P]) (use readItem_keeps in auto)
  qed
  show ?thesis
    by (rule forEach_invariant [OF s2, where P = ?P]) (use \<open>?P i1\<close> readItem_keeps in auto)
qed

text \<open>
  Claim C4, as the specification states it, fails. In
  \<^verbatim>\<open><div itemscope itemtype="A  A" itemid="%"><span itemprop="p" itemscope itemtype="B" itemid="x"></span></div>\<close>
  the top-level item of the div has an itemid, yet its id stays empty, since the
  reference does not resolve; and the item built for the span as the value of \<open>p\<close>
  has no types and no id, though the span has an itemtype and an itemid that resolves.
\<close>

theorem item_types_id_counterexample:
  "parse (newParser (document [idDoc]) exampleURL) 3 =
     Some (\<lparr>Items = [Item [''A'', ''A''] [''p'' \<mapsto> [VItem (Item [] Map.empty [])]] [],
                     Item [''B''] Map.empty ''http://example.com/x'']\<rparr>, None)
   \<and> getAttr ''itemid'' idDoc = Some ''%''
   \<and> getAttr ''itemtype'' (hd (Children idDoc)) = Some ''B''
   \<and> Types (Item [] Map.empty []) \<noteq> filter (\<lambda>t. t \<noteq> []) (Split ''B'')"
  by (simp add: idDoc_def model_defs numeral_3_eq_3)

text \<open>
  Claim C4, amended, for the items built from top-level roots. The types of the item
  are the pieces of the itemtype attribute between single spaces, empty pieces dropped,
  in order and with duplicates. The id is set only inside the test for the itemtype
  attribute and only when the reference resolves: it is the resolved itemid when the
  node has an itemtype, an itemid, and the itemid resolves against the base URL, and it
  is empty otherwise.
\<close>

theorem toplevel_types_id:
  assumes "parseToplevel p k node = Some item"
  shows "Types item =
           (case getAttr ''itemtype'' node of
              Some s \<Rightarrow> filter (\<lambda>t. t \<noteq> []) (Split s)
            | None \<Rightarrow> [])
       \<and> ItemId item =
           (case getAttr ''itemtype'' node of
              Some s \<Rightarrow>
                (case getAttr ''itemid'' node of
                   Some r \<Rightarrow> (case baseURL p r of Some u \<Rightarrow> u | None \<Rightarrow> [])
                 | None \<Rightarrow> [])
            | None \<Rightarrow> [])"
  using parseToplevel_keeps [OF assms]
  by (simp add: readTypes_Types readTypes_ItemId NewItem_def split: option.splits)

theorem toplevel_types_id_witness:
  "parseToplevel (newParser (document [idDoc]) exampleURL) 2 (hd (Children idDoc)) =
     Some (Item [''B''] Map.empty ''http://example.com/x'')
   \<and> Types (Item [''B''] Map.empty ''http://example.com/x'') = [''B'']
   \<and> ItemId (Item [''B''] Map.empty ''http://example.com/x'') = ''http://example.com/x''"
proof -
  have h: "parseToplevel (newParser (document [idDoc]) exampleURL) 2 (hd (Children idDoc)) =
     Some (Item [''B''] Map.empty ''http://example.com/x'')"
    by (simp add: idDoc_def model_defs numeral_2_eq_2)
  from toplevel_types_id [OF h] h show ?thesis
    by (simp add: idDoc_def getAttr_def exampleURL_def newParser_def)
qed

section \<open>The top-level scan\<close>

lemma fold_scanNode_fst:
  "fst (fold scanNode ns st) =
     fst st @ filter (\<lambda>n. getAttr ''itemscope'' n \<noteq> None \<and> getAttr ''itemtype'' n \<noteq> None) ns"
  by (induction ns arbitrary: st) (auto simp: scanNode_def Let_def split: option.splits)

lemma scan_toplevel:
  "fst (scan p) =
     filter (\<lambda>n. getAttr ''itemscope'' n \<noteq> None \<and> getAttr ''itemtype'' n \<noteq> None)
            (preorder (tree p))"
  by (simp add: scan_def walkNodes_preorder fold_scanNode_fst)

lemma forEach_collect:
  assumes "forEach (\<lambda>items node. (case f node of None \<Rightarrow> None
                                    | Some item \<Rightarrow> Some (items @ [item]))) acc ns = Some items"
  shows "\<exists>new. items = acc @ new \<and> list_all2 (\<lambda>node item. f node = Some item) ns new"
  using assms
proof (induction ns arbitrary: acc)
  case Nil
  then show ?case by simp
next
  case (Cons n ns)
  from Cons.prems obtain item where
    i: "f n = Some item"
    and r: "forEach (\<lambda>items node. (case f node of None \<Rightarrow> None
                                    | Some item \<Rightarrow> Some (items @ [item]))) (acc @ [item]) ns = Some items"
    by (auto split: option.splits)
  from Cons.IH [OF r] obtain new where
    "items = (acc @ [item]) @ new" "list_all2 (\<lambda>node item. f node = Some item) ns new"
    by blast
  then have "items = acc @ (item # new) \<and> list_all2 (\<lambda>node item. f node = Some item) (n # ns) (item # new)"
    using i by simp
  then show ?case by blast
qed

lemma parse_items:
  assumes "parse p k = Some (d, e)"
  shows "\<exists>new. Items d = Items (data p) @ new
           \<and> list_all2 (\<lambda>node item.
                 parseToplevel (p\<lparr>identifiedNodes := snd (scan p)\<rparr>) k node = Some item)
               (fst (scan p)) new"
proof -
  from assms obtain items where
    f: "forEach (\<lambda>items node.
                   (case parseToplevel (p\<lparr>identifiedNodes := snd (scan p)\<rparr>) k node of
                      None \<Rightarrow> None
                    | Some item \<Rightarrow> Some (items @ [item])))
                (Items (data p)) (fst (scan p)) = Some items"
    and d: "Items d = items"
    by (auto simp: parse_def Let_def split: option.splits)
  from forEach_collect [OF f] d show ?thesis by simp
qed

text \<open>
  Claim C2, as the specification states it, fails: in
  \<^verbatim>\<open><div itemscope><span itemprop="name">Penelope</span></div>\<close> the div carries the
  scope marker and no property marker, and the scan does not return it, since it tests
  for an itemtype attribute.
\<close>

theorem toplevel_scan_counterexample:
  "fst (scan (newParser (document [untypedDoc]) exampleURL)) = []
   \<and> filter (\<lambda>n. getAttr ''itemscope'' n \<noteq> None \<and> getAttr ''itemprop'' n = None)
       (preorder (document [untypedDoc])) = [untypedDoc]
   \<and> parse (newParser (document [untypedDoc]) exampleURL) 3 = Some (\<lparr>Items = []\<rparr>, None)"
  by (simp add: untypedDoc_def model_defs numeral_3_eq_3)

text \<open>
  Claim C2, amended. Among the nodes that do not carry the property marker, the
  top-level scan returns exactly those that carry the scope marker and a type attribute
  (itemtype), in document pre-order. The top-level items are built from the nodes the
  scan returns, one item per node and in the order of the scan, after the items the
  parser already held.
\<close>

theorem toplevel_scan_typed_scopes:
  "filter (\<lambda>n. getAttr ''itemprop'' n = None) (fst (scan p)) =
     filter (\<lambda>n. getAttr ''itemscope'' n \<noteq> None \<and> getAttr ''itemtype'' n \<noteq> None
                  \<and> getAttr ''itemprop'' n = None)
            (preorder (tree p))
   \<and> (parse p k = Some (d, e) \<longrightarrow>
        list_all2 (\<lambda>node item.
              parseToplevel (p\<lparr>identifiedNodes := snd (scan p)\<rparr>) k node = Some item)
          (fst (scan p)) (drop (length (Items (data p))) (Items d)))"
proof
  show "filter (\<lambda>n. getAttr ''itemprop'' n = None) (fst (scan p)) =
     filter (\<lambda>n. getAttr ''itemscope'' n \<noteq> None \<and> getAttr ''itemtype'' n \<noteq> None
                  \<and> getAttr ''itemprop'' n = None)
            (preorder (tree p))"
    by (simp add: scan_toplevel conj_commute conj_left_commute cong: conj_cong)
next
  show "parse p k = Some (d, e) \<longrightarrow>
        list_all2 (\<lambda>node item.
              parseToplevel (p\<lparr>identifiedNodes := snd (scan p)\<rparr>) k node = Some item)
          (fst (scan p)) (drop (length (Items (data p))) (Items d))"
  proof
    assume "parse p k = Some (d, e)"
    from parse_items [OF this] show "list_all2 (\<lambda>node item.
              parseToplevel (p\<lparr>identifiedNodes := snd (scan p)\<rparr>) k node = Some item)
          (fst (scan p)) (drop (length (Items (data p))) (Items d))"
      by auto
  qed
qed

theorem toplevel_scan_typed_scopes_witness:
  "parse (newParser (document [personDoc]) exampleURL) 4 =
     Some (\<lparr>Items =
              [Item [''Person'']
                 [''name'' \<mapsto> [VString ''Penelope''],
                  ''url'' \<mapsto> [VString ''http://example.com/users/1''],
                  ''title'' \<mapsto> [VString ''profile'']] [],
               Item [''Breadcrumb'']
                 [''url'' \<mapsto> [VString ''http://example.com/users/1''],
                  ''title'' \<mapsto> [VString ''profile'']] []]\<rparr>, None)
   \<and> fst (scan (newParser (document [personDoc]) exampleURL)) = [personDoc, breadcrumb]
   \<and> list_all2 (\<lambda>node item.
          parseToplevel ((newParser (document [personDoc]) exampleURL)
             \<lparr>identifiedNodes := snd (scan (newParser (document [personDoc]) exampleURL))\<rparr>) 4 node = Some item)
        [personDoc, breadcrumb]
        [Item [''Person'']
           [''name'' \<mapsto> [VString ''Penelope''],
            ''url'' \<mapsto> [VString ''http://example.com/users/1''],
            ''title'' \<mapsto> [VString ''profile'']] [],
         Item [''Breadcrumb'']
           [''url'' \<mapsto> [VString ''http://example.com/users/1''],
            ''title'' \<mapsto> [VString ''profile'']] []]"
proof -
  let ?d = "\<lparr>Items =
              [Item [''Person'']
                 [''name'' \<mapsto> [VString ''Penelope''],
                  ''url'' \<mapsto> [VString ''http://example.com/users/1''],
                  ''title'' \<mapsto> [VString ''profile'']] [],
               Item [''Breadcrumb'']
                 [''url'' \<mapsto> [VString ''http://example.com/users/1''],
                  ''title'' \<mapsto> [VString ''profile'']] []]\<rparr>"
  have h: "parse (newParser (document [personDoc]) exampleURL) 4 = Some (?d, None)"
    by (simp add: personDoc_def breadcrumb_def model_defs eval_nat_numeral)
  have s: "fst (scan (newParser (document [personDoc]) exampleURL)) = [personDoc, breadcrumb]"
    by (simp add: personDoc_def breadcrumb_def scan_def scanNode_def getAttr_def newParser_def
          document_def)
  have e: "Items (data (newParser (document [personDoc]) exampleURL)) = []"
    by (simp add: newParser_def)
  from toplevel_scan_typed_scopes [of "newParser (document [personDoc]) exampleURL" 4 ?d None] h
  have "list_all2 (\<lambda>node item.
          parseToplevel ((newParser (document [personDoc]) exampleURL)
             \<lparr>identifiedNodes := snd (scan (newParser (document [personDoc]) exampleURL))\<rparr>) 4 node = Some item)
        (fst (scan (newParser (document [personDoc]) exampleURL)))
        (drop (length (Items (data (newParser (document [personDoc]) exampleURL)))) (Items ?d))"
    by blast
  then show ?thesis using h unfolding s e by simp
qed

section \<open>Scopes that are both nested and top-level, and scopes inside scopes\<close>

text \<open>
  Claim C1 at
  \<^verbatim>\<open><div itemscope itemtype="A"><span itemprop="p" itemscope itemtype="B" itemid="x">t</span></div>\<close>.
  The span carries the scope marker and the property marker. It becomes a value of the
  property \<open>p\<close> of the item of the div, and the scan also returns it as a top-level
  root, since it has an itemtype attribute: the result lists a second top-level item,
  built from the span.
\<close>

theorem nested_scope_also_toplevel:
  "getAttr ''itemscope'' (hd (Children nestedDoc)) = Some []
   \<and> getAttr ''itemprop'' (hd (Children nestedDoc)) = Some ''p''
   \<and> fst (scan (newParser (document [nestedDoc]) exampleURL)) = [nestedDoc, hd (Children nestedDoc)]
   \<and> parseToplevel ((newParser (document [nestedDoc]) exampleURL)
         \<lparr>identifiedNodes := snd (scan (newParser (document [nestedDoc]) exampleURL))\<rparr>) 3
         (hd (Children nestedDoc)) =
       Some (Item [''B''] Map.empty ''http://example.com/x'')
   \<and> parse (newParser (document [nestedDoc]) exampleURL) 3 =
       Some (\<lparr>Items = [Item [''A''] [''p'' \<mapsto> [VItem (Item [] Map.empty [])]] [],
                       Item [''B''] Map.empty ''http://example.com/x'']\<rparr>, None)"
  by (simp add: nestedDoc_def model_defs numeral_3_eq_3)

text \<open>
  Claim C3 at the document of \<^verbatim>\<open>TestNestedItems\<close> (shortened). The inner div
  carries the scope marker and no property marker, and it is not the root that the call
  builds; \<^verbatim>\<open>readItem\<close> still walks into it, so the url and the title of the
  breadcrumb become properties of the person.
\<close>

theorem unrelated_scope_is_entered:
  "getAttr ''itemscope'' breadcrumb = Some []
   \<and> getAttr ''itemprop'' breadcrumb = None
   \<and> breadcrumb \<in> set (Children personDoc)
   \<and> parse (newParser (document [personDoc]) exampleURL) 4 =
       Some (\<lparr>Items =
                [Item [''Person'']
                   [''name'' \<mapsto> [VString ''Penelope''],
                    ''url'' \<mapsto> [VString ''http://example.com/users/1''],
                    ''title'' \<mapsto> [VString ''profile'']] [],
                 Item [''Breadcrumb'']
                   [''url'' \<mapsto> [VString ''http://example.com/users/1''],
                    ''title'' \<mapsto> [VString ''profile'']] []]\<rparr>, None)"
  by (simp add: personDoc_def breadcrumb_def model_defs eval_nat_numeral)

section \<open>When readItem returns\<close>

lemma forEach_None:
  "x \<in> set xs \<Longrightarrow> (\<And>s. body s x = None) \<Longrightarrow> forEach body s xs = None"
  by (induction xs arbitrary: s) (auto split: option.splits)

lemma height_pos_child:
  assumes "0 < height n"
  shows "\<exists>c \<in> set (Children n). height n = Suc (height c)"
proof (cases n)
  case (Node t a d at cs)
  have "0 < foldr (\<lambda>c h. max (Suc (height c)) h) cs 0 \<Longrightarrow>
          \<exists>c \<in> set cs. foldr (\<lambda>c h. max (Suc (height c)) h) cs 0 = Suc (height c)"
  proof (induction cs)
    case Nil
    then show ?case by simp
  next
    case (Cons x xs)
    show ?case
    proof (cases "Suc (height x) \<ge> foldr (\<lambda>c h. max (Suc (height c)) h) xs 0")
      case True
      then show ?thesis by (simp add: max_def)
    next
      case False
      then have "0 < foldr (\<lambda>c h. max (Suc (height c)) h) xs 0" by simp
      from Cons.IH [OF this] False show ?thesis by (auto simp: max_def)
    qed
  qed
  then show ?thesis using assms Node by simp
qed

lemma preorder_height: "m \<in> set (preorder n) \<Longrightarrow> height m \<le> height n"
proof (induction n arbitrary: m)
  case (Node t a d at cs)
  show ?case
  proof (cases "m = Node t a d at cs")
    case True
    then show ?thesis by simp
  next
    case False
    then obtain c where c: "c \<in> set cs" "m \<in> set (preorder c)" using Node.prems by auto
    from Node.IH [OF c] have "height m \<le> height c" .
    moreover have "height c < height (Node t a d at cs)"
      using height_child [of c "Node t a d at cs"] c(1) by simp
    ultimately show ?thesis by simp
  qed
qed

lemma readItem_needs_depth: "k \<le> height n \<Longrightarrow> readItem p k item n = None"
proof (induction k arbitrary: n item)
  case 0
  show ?case by simp
next
  case (Suc k)
  then have "0 < height n" by simp
  from height_pos_child [OF this] obtain c where
    c: "c \<in> set (Children n)" "height n = Suc (height c)" by blast
  then have "k \<le> height c" using Suc.prems by simp
  then have "\<And>i. readItem p k i c = None" using Suc.IH by simp
  then have loop: "\<And>i. forEach (readItem p k) i (Children n) = None"
    by (rule forEach_None [OF c(1)])
  show ?case by (simp add: loop split: option.splits)
qed

lemma refNodes_unfold:
  "forEach (readRef p rd) item (Split itemrefs) = forEach rd item (refNodes p itemrefs)"
  by (simp add: forEach_readRef refNodes_def)

lemma readItem_returns:
  assumes closed: "\<And>n. n \<in> S \<Longrightarrow> set (callees p n) \<subseteq> S"
    and dec: "\<And>n m. n \<in> S \<Longrightarrow> m \<in> set (callees p n) \<Longrightarrow> rank m < rank n"
  shows "n \<in> S \<Longrightarrow> rank n < k \<Longrightarrow> \<exists>item'. readItem p k item n = Some item'"
proof (induction k arbitrary: n item)
  case 0
  then show ?case by simp
next
  case (Suc k)
  have sub: "\<And>m i. m \<in> set (callees p n) \<Longrightarrow> \<exists>i'. readItem p k i m = Some i'"
  proof -
    fix m i
    assume m: "m \<in> set (callees p n)"
    then have "m \<in> S" using closed [OF Suc.prems(1)] by auto
    moreover have "rank m < k" using dec [OF Suc.prems(1) m] Suc.prems(2) by simp
    ultimately show "\<exists>i'. readItem p k i m = Some i'" using Suc.IH by simp
  qed
  have kids: "\<And>i. \<exists>i'. forEach (readItem p k) i (Children n) = Some i'"
  proof -
    fix i
    show "\<exists>i'. forEach (readItem p k) i (Children n) = Some i'"
      by (rule forEach_total) (use sub in \<open>auto simp: callees_def\<close>)
  qed
  show ?case
  proof (cases "getAttr ''itemprop'' n")
    case None
    then show ?thesis using kids by simp
  next
    case (Some ps)
    note ps = this
    show ?thesis
    proof (cases "getAttr ''itemscope'' n")
      case None
      then show ?thesis using ps kids by simp
    next
      case (Some sc)
      note sc = this
      have "\<exists>sub1. (case getAttr ''itemref'' n of
                Some itemrefs \<Rightarrow> forEach (readRef p (readItem p k)) NewItem (Split itemrefs)
              | None \<Rightarrow> Some NewItem) = Some sub1"
      proof (cases "getAttr ''itemref'' n")
        case None
        then show ?thesis by simp
      next
        case (Some refs)
        have "\<exists>i'. forEach (readItem p k) NewItem (refNodes p refs) = Some i'"
          by (rule forEach_total) (use sub ps sc Some in \<open>auto simp: callees_def\<close>)
        then show ?thesis using Some by (simp add: refNodes_unfold)
      qed
      then obtain sub1 where s1: "(case getAttr ''itemref'' n of
                Some itemrefs \<Rightarrow> forEach (readRef p (readItem p k)) NewItem (Split itemrefs)
              | None \<Rightarrow> Some NewItem) = Some sub1" by blast
      from kids [of sub1] obtain sub2 where "forEach (readItem p k) sub1 (Children n) = Some sub2"
        by blast
      then show ?thesis using ps sc s1 by simp
    qed
  qed
qed

lemma scanNode_snd:
  "snd (scanNode a st) i = Some n \<Longrightarrow> snd st i = Some n \<or> n = a"
  by (auto simp: scanNode_def Let_def split: option.splits if_splits)

lemma fold_scanNode_snd:
  "snd (fold scanNode ns st) i = Some n \<Longrightarrow> snd st i = Some n \<or> n \<in> set ns"
proof (induction ns arbitrary: st)
  case Nil
  then show ?case by simp
next
  case (Cons a ns)
  from Cons.prems have "snd (fold scanNode ns (scanNode a st)) i = Some n" by simp
  from Cons.IH [OF this] have "snd (scanNode a st) i = Some n \<or> n \<in> set ns" .
  then show ?case using scanNode_snd [of a st i n] by auto
qed

lemma indexed_in_tree:
  "identifiedNodes (indexed (newParser t u)) i = Some n \<Longrightarrow> n \<in> set (preorder t)"
  using fold_scanNode_snd [of "preorder t" "([], Map.empty)" i n]
  by (simp add: indexed_def scan_def walkNodes_preorder newParser_def)

lemma refNodes_in_tree:
  "m \<in> set (refNodes (indexed (newParser t u)) refs) \<Longrightarrow> m \<in> set (preorder t)"
  by (auto simp: refNodes_def dest: indexed_in_tree [OF sym] indexed_in_tree
           split: if_splits option.splits)

lemma callees_in_tree:
  assumes "n \<in> set (preorder t)"
  shows "set (callees (indexed (newParser t u)) n) \<subseteq> set (preorder t)"
  using assms preorder_closed [of n t]
  by (auto simp: callees_def dest: refNodes_in_tree split: option.splits)

lemma parse_indexed:
  "parse p k =
     (case forEach (\<lambda>items node.
                      (case parseToplevel (indexed p) k node of
                         None \<Rightarrow> None
                       | Some item \<Rightarrow> Some (items @ [item])))
                   (Items (data p)) (fst (scan p)) of
        None \<Rightarrow> None
      | Some items \<Rightarrow> Some ((data p)\<lparr>Items := items\<rparr>, None))"
  by (simp add: parse_def indexed_def Let_def)

lemma parse_returns:
  assumes dec: "\<And>n m. n \<in> set (preorder t) \<Longrightarrow>
                   m \<in> set (callees (indexed (newParser t u)) n) \<Longrightarrow> rank m < rank n"
    and bound: "\<And>n. n \<in> set (preorder t) \<Longrightarrow> rank n < k"
  shows "\<exists>d. parse (newParser t u) k = Some (d, None)"
proof -
  let ?p = "indexed (newParser t u)"
  have rd: "\<And>m i. m \<in> set (preorder t) \<Longrightarrow> \<exists>i'. readItem ?p k i m = Some i'"
  proof -
    fix m i
    assume m: "m \<in> set (preorder t)"
    show "\<exists>i'. readItem ?p k i m = Some i'"
      by (rule readItem_returns [where S = "set (preorder t)" and rank = rank])
         (use callees_in_tree dec bound m in auto)
  qed
  have top: "\<And>node. node \<in> set (preorder t) \<Longrightarrow> \<exists>item. parseToplevel ?p k node = Some item"
  proof -
    fix node
    assume node: "node \<in> set (preorder t)"
    have "\<exists>i1. (case getAttr ''itemref'' node of
            Some s \<Rightarrow> forEach (readRef ?p (readItem ?p k)) (readTypes ?p node NewItem) (Split s)
          | None \<Rightarrow> Some (readTypes ?p node NewItem)) = Some i1"
    proof (cases "getAttr ''itemref'' node")
      case None
      then show ?thesis by simp
    next
      case (Some refs)
      have "\<exists>i'. forEach (readItem ?p k) (readTypes ?p node NewItem) (refNodes ?p refs) = Some i'"
        by (rule forEach_total) (use rd refNodes_in_tree in blast)
      then show ?thesis using Some by (simp add: refNodes_unfold)
    qed
    then obtain i1 where i1: "(case getAttr ''itemref'' node of
            Some s \<Rightarrow> forEach (readRef ?p (readItem ?p k)) (readTypes ?p node NewItem) (Split s)
          | None \<Rightarrow> Some (readTypes ?p node NewItem)) = Some i1" by blast
    have "\<exists>i'. forEach (readItem ?p k) i1 (Children node) = Some i'"
      by (rule forEach_total) (use rd preorder_closed [OF node] in blast)
    then show "\<exists>item. parseToplevel ?p k node = Some item"
      using i1 by (simp add: parseToplevel_def)
  qed
  have "\<exists>items. forEach (\<lambda>items node.
                      (case parseToplevel ?p k node of
                         None \<Rightarrow> None
                       | Some item \<Rightarrow> Some (items @ [item])))
                   (Items (data (newParser t u))) (fst (scan (newParser t u))) = Some items"
  proof (rule forEach_total)
    fix s x
    assume "x \<in> set (fst (scan (newParser t u)))"
    then have "x \<in> set (preorder t)" by (simp add: scan_toplevel newParser_def)
    from top [OF this] show "\<exists>s'. (case parseToplevel ?p k x of None \<Rightarrow> None
                       | Some item \<Rightarrow> Some (s @ [item])) = Some s'"
      by auto
  qed
  then show ?thesis by (auto simp: parse_indexed)
qed

section \<open>Termination of the extraction\<close>

lemma cyc_facts:
  "getAttr ''itemprop'' cycSpan = Some ''p''"
  "getAttr ''itemscope'' cycSpan = Some []"
  "getAttr ''itemref'' cycSpan = Some ''outer''"
  "getAttr ''itemprop'' cycDoc = None"
  "getAttr ''itemref'' cycDoc = None"
  "Children cycDoc = [cycSpan]"
  "Split ''outer'' = [''outer'']"
  "identifiedNodes (indexed (newParser (document [cycDoc]) exampleURL)) ''outer'' = Some cycDoc"
  "fst (scan (newParser (document [cycDoc]) exampleURL)) = [cycDoc]"
  by (simp_all add: cycSpan_def cycDoc_def getAttr_def indexed_def scan_def scanNode_def
        newParser_def document_def)

lemma cyc_diverges:
  "readItem (indexed (newParser (document [cycDoc]) exampleURL)) k item cycSpan = None
   \<and> readItem (indexed (newParser (document [cycDoc]) exampleURL)) k item cycDoc = None"
proof (induction k arbitrary: item)
  case 0
  show ?case by simp
next
  case (Suc k)
  show ?case by (simp add: cyc_facts readRef_def Suc.IH)
qed

text \<open>
  Claim C8, as the specification states it, fails. In
  \<^verbatim>\<open><div id="outer" itemscope itemtype="T"><span itemprop="p" itemscope itemref="outer"></span></div>\<close>
  the reference list of the nested scope points at the element that contains the scope.
  Reading the span reads the div, which reads the span again: no depth is enough, the
  recursion does not end.
\<close>

theorem cyclic_itemref_counterexample:
  "\<forall>k. parse (newParser (document [cycDoc]) exampleURL) k = None"
  by (simp add: parse_indexed cyc_facts parseToplevel_def cyc_diverges)

text \<open>
  Claim C8, amended. The extraction terminates on every tree whose calls form no cycle:
  when some measure on the nodes decreases from every node to each of its children and
  from every node with both markers to each node its reference list resolves to,
  \<^verbatim>\<open>parse\<close> returns within every depth above the measure of all nodes. When no node
  with both markers carries a reference list, the nesting depth is such a measure, and
  \<^verbatim>\<open>parse\<close> returns within the nesting depth of the document plus one. The depth of
  the calls of \<^verbatim>\<open>readItem\<close> on a node is always more than the nesting depth below
  that node.
\<close>

theorem extraction_terminates_when_acyclic:
  "((\<forall>n \<in> set (preorder t). \<forall>m \<in> set (callees (indexed (newParser t u)) n). rank m < rank n)
      \<and> (\<forall>n \<in> set (preorder t). rank n < k)
      \<longrightarrow> (\<exists>d. parse (newParser t u) k = Some (d, None)))
   \<and> ((\<forall>n \<in> set (preorder t).
          getAttr ''itemprop'' n \<noteq> None \<and> getAttr ''itemscope'' n \<noteq> None
            \<longrightarrow> getAttr ''itemref'' n = None)
      \<longrightarrow> (\<exists>d. parse (newParser t u) (Suc (height t)) = Some (d, None)))
   \<and> (j \<le> height n \<longrightarrow> readItem p j item n = None)"
proof (intro conjI impI)
  assume a: "(\<forall>n \<in> set (preorder t). \<forall>m \<in> set (callees (indexed (newParser t u)) n). rank m < rank n)
      \<and> (\<forall>n \<in> set (preorder t). rank n < k)"
  show "\<exists>d. parse (newParser t u) k = Some (d, None)"
    by (rule parse_returns [where rank = rank]) (use a in auto)
next
  assume b: "\<forall>n \<in> set (preorder t).
          getAttr ''itemprop'' n \<noteq> None \<and> getAttr ''itemscope'' n \<noteq> None
            \<longrightarrow> getAttr ''itemref'' n = None"
  show "\<exists>d. parse (newParser t u) (Suc (height t)) = Some (d, None)"
  proof (rule parse_returns [where rank = height])
    fix n m
    assume n: "n \<in> set (preorder t)" and m: "m \<in> set (callees (indexed (newParser t u)) n)"
    from b n have "getAttr ''itemprop'' n \<noteq> None \<and> getAttr ''itemscope'' n \<noteq> None
            \<longrightarrow> getAttr ''itemref'' n = None" by blast
    with m have "m \<in> set (Children n)"
      by (cases "getAttr ''itemprop'' n"; cases "getAttr ''itemscope'' n")
         (auto simp: callees_def)
    then show "height m < height n" by (rule height_child)
  next
    fix n
    assume "n \<in> set (preorder t)"
    then show "height n < Suc (height t)" using preorder_height [of n t] by simp
  qed
next
  assume "j \<le> height n"
  then show "readItem p j item n = None" by (rule readItem_needs_depth)
qed

theorem extraction_terminates_when_acyclic_witness:
  "list_all (\<lambda>n. list_all (\<lambda>m. chainRank m < chainRank n)
                      (callees (indexed (newParser chainDoc exampleURL)) n))
            (preorder chainDoc)
   \<and> list_all (\<lambda>n. chainRank n < 6) (preorder chainDoc)
   \<and> parse (newParser chainDoc exampleURL) 6 =
       Some (\<lparr>Items = [Item [''T'']
                         [''p'' \<mapsto> [VItem (Item [] [''q'' \<mapsto> [VString ''1'']] [])]] []]\<rparr>, None)
   \<and> list_all (\<lambda>n. getAttr ''itemprop'' n = None \<or> getAttr ''itemscope'' n = None
                      \<or> getAttr ''itemref'' n = None)
        (preorder personDoc)
   \<and> (\<exists>d. parse (newParser personDoc exampleURL) (Suc (height personDoc)) = Some (d, None))
   \<and> (0::nat) \<le> height emptyMeta
   \<and> readItem (newParser emptyMeta exampleURL) 0 NewItem emptyMeta = None"
proof -
  have l1: "list_all (\<lambda>n. list_all (\<lambda>m. chainRank m < chainRank n)
                      (callees (indexed (newParser chainDoc exampleURL)) n))
            (preorder chainDoc)"
    by (simp add: chainDoc_def chainDiv_def chainSpan_def chainRank_def callees_def refNodes_def
          indexed_def scan_def scanNode_def getAttr_def newParser_def)
  have l2: "list_all (\<lambda>n. chainRank n < 6) (preorder chainDoc)"
    by (simp add: chainDoc_def chainDiv_def chainSpan_def chainRank_def)
  have l3: "list_all (\<lambda>n. getAttr ''itemprop'' n = None \<or> getAttr ''itemscope'' n = None
                      \<or> getAttr ''itemref'' n = None)
        (preorder personDoc)"
    by (simp add: personDoc_def breadcrumb_def getAttr_def)
  have h1: "\<forall>n \<in> set (preorder chainDoc).
      \<forall>m \<in> set (callees (indexed (newParser chainDoc exampleURL)) n). chainRank m < chainRank n"
    using l1 by (simp add: list_all_iff)
  have h2: "\<forall>n \<in> set (preorder chainDoc). chainRank n < 6"
    using l2 by (simp add: list_all_iff)
  have h3: "\<forall>n \<in> set (preorder personDoc).
          getAttr ''itemprop'' n \<noteq> None \<and> getAttr ''itemscope'' n \<noteq> None
            \<longrightarrow> getAttr ''itemref'' n = None"
    using l3 by (auto simp: list_all_iff)
  have e: "parse (newParser chainDoc exampleURL) 6 =
       Some (\<lparr>Items = [Item [''T'']
                         [''p'' \<mapsto> [VItem (Item [] [''q'' \<mapsto> [VString ''1'']] [])]] []]\<rparr>, None)"
    by (simp add: chainDoc_def chainDiv_def chainSpan_def model_defs eval_nat_numeral)
  from extraction_terminates_when_acyclic [of chainDoc exampleURL chainRank 6] h1 h2
  have r1: "\<exists>d. parse (newParser chainDoc exampleURL) 6 = Some (d, None)" by blast
  from extraction_terminates_when_acyclic [of personDoc exampleURL] h3
  have r2: "\<exists>d. parse (newParser personDoc exampleURL) (Suc (height personDoc)) = Some (d, None)"
    by blast
  from extraction_terminates_when_acyclic
         [where j = 0 and n = emptyMeta and p = "newParser emptyMeta exampleURL" and item = NewItem]
  have r3: "readItem (newParser emptyMeta exampleURL) 0 NewItem emptyMeta = None" by simp
  from l1 l2 l3 e r1 r2 r3 show ?thesis by simp
qed

section \<open>parse reports no error\<close>

lemma self_facts:
  "getAttr ''itemprop'' selfSpan = Some ''p''"
  "getAttr ''itemscope'' selfSpan = Some []"
  "getAttr ''itemref'' selfSpan = Some ''a''"
  "getAttr ''itemref'' selfDoc = None"
  "Children selfDoc = [selfSpan]"
  "Split ''a'' = [''a'']"
  "identifiedNodes (indexed (newParser (document [selfDoc]) exampleURL)) ''a'' = Some selfSpan"
  "fst (scan (newParser (document [selfDoc]) exampleURL)) = [selfDoc]"
  by (simp_all add: selfSpan_def selfDoc_def getAttr_def indexed_def scan_def scanNode_def
        newParser_def document_def)

lemma self_diverges:
  "readItem (indexed (newParser (document [selfDoc]) exampleURL)) k item selfSpan = None"
proof (induction k arbitrary: item)
  case 0
  show ?case by simp
next
  case (Suc k)
  show ?case by (simp add: self_facts readRef_def Suc.IH)
qed

lemma find_snoc:
  "find P (xs @ [a]) = (case find P xs of Some x \<Rightarrow> Some x | None \<Rightarrow> if P a then Some a else None)"
  by (induction xs) simp_all

lemma scanNode_index:
  "snd (scanNode a st) i = (if getAttr ''id'' a = Some i then Some a else snd st i)"
  by (simp add: scanNode_def Let_def split: option.splits)

lemma fold_scanNode_index:
  "snd (fold scanNode ns st) i =
     (case find (\<lambda>n. getAttr ''id'' n = Some i) (rev ns) of
        Some n \<Rightarrow> Some n
      | None \<Rightarrow> snd st i)"
proof (induction ns arbitrary: st)
  case Nil
  show ?case by simp
next
  case (Cons a ns)
  show ?case
    by (simp add: Cons.IH find_snoc scanNode_index split: option.splits)
qed

text \<open>
  Claim C9, as the specification states it, fails. In
  \<^verbatim>\<open><div itemscope itemtype="T"><span id="a" itemprop="p" itemscope itemref="a"></span></div>\<close>
  the reference list of the nested scope names the scope itself. The tree is well
  formed, and \<^verbatim>\<open>parse\<close> returns no result for it, at any depth: the markup is not
  left out, the extraction does not come back.
\<close>

theorem self_itemref_counterexample:
  "\<forall>k. parse (newParser (document [selfDoc]) exampleURL) k = None"
  by (simp add: parse_indexed self_facts parseToplevel_def self_diverges)

text \<open>
  Claim C9, amended. Whenever \<^verbatim>\<open>parse\<close> returns, it returns a nil error, and it
  returns on every tree whose calls form no cycle (some measure decreases from every
  node to its children and from every node with both markers to the nodes its
  reference list resolves to). On the way, malformed markup is left out and stops
  nothing: an empty reference token or one without an entry in the id index leaves the
  item as it is; a property node whose value attribute is missing or whose URL does not
  resolve adds no property; an itemid that does not resolve leaves the id as it is; of
  several nodes with the same id the index keeps the last one in document order.
\<close>

theorem parse_returns_nil_error:
  "(parse p k = Some (d, e) \<longrightarrow> e = None)
   \<and> ((\<forall>n \<in> set (preorder t). \<forall>m \<in> set (callees (indexed (newParser t u)) n). rank m < rank n)
        \<and> (\<forall>n \<in> set (preorder t). rank n < k')
        \<longrightarrow> (\<exists>d'. parse (newParser t u) k' = Some (d', None)))
   \<and> (tok = [] \<or> identifiedNodes p tok = None \<longrightarrow> readRef p rd item tok = Some item)
   \<and> (getAttr ''itemprop'' node = Some itemprops \<and> getAttr ''itemscope'' node = None
        \<and> Type node \<noteq> TextNode \<and> valueOf (baseURL p) node = None
        \<longrightarrow> readItem p (Suc j) item node = forEach (readItem p j) item (Children node))
   \<and> (getAttr ''itemid'' node = Some r \<and> baseURL p r = None
        \<longrightarrow> ItemId (readTypes p node item) = ItemId item)
   \<and> snd (scan p) i =
       (case find (\<lambda>n. getAttr ''id'' n = Some i) (rev (preorder (tree p))) of
          Some n \<Rightarrow> Some n
        | None \<Rightarrow> identifiedNodes p i)"
proof (intro conjI impI)
  assume "parse p k = Some (d, e)"
  then show "e = None" by (auto simp: parse_def Let_def split: option.splits)
next
  assume a: "(\<forall>n \<in> set (preorder t). \<forall>m \<in> set (callees (indexed (newParser t u)) n). rank m < rank n)
        \<and> (\<forall>n \<in> set (preorder t). rank n < k')"
  show "\<exists>d'. parse (newParser t u) k' = Some (d', None)"
    by (rule parse_returns [where rank = rank]) (use a in auto)
next
  assume "tok = [] \<or> identifiedNodes p tok = None"
  then show "readRef p rd item tok = Some item" by (auto simp: readRef_def)
next
  assume a: "getAttr ''itemprop'' node = Some itemprops \<and> getAttr ''itemscope'' node = None
        \<and> Type node \<noteq> TextNode \<and> valueOf (baseURL p) node = None"
  then show "readItem p (Suc j) item node = forEach (readItem p j) item (Children node)"
    by (simp add: propValue_valueOf addStrings_empty)
next
  assume "getAttr ''itemid'' node = Some r \<and> baseURL p r = None"
  then show "ItemId (readTypes p node item) = ItemId item"
    by (simp add: readTypes_ItemId split: option.splits)
next
  show "snd (scan p) i =
       (case find (\<lambda>n. getAttr ''id'' n = Some i) (rev (preorder (tree p))) of
          Some n \<Rightarrow> Some n
        | None \<Rightarrow> identifiedNodes p i)"
    by (simp add: scan_def walkNodes_preorder fold_scanNode_index split: option.splits)
qed

theorem parse_returns_nil_error_witness:
  "list_all (\<lambda>n. list_all (\<lambda>m. height m < height n)
                      (callees (indexed (newParser refDoc exampleURL)) n))
            (preorder refDoc)
   \<and> list_all (\<lambda>n. height n < 4) (preorder refDoc)
   \<and> parse (newParser refDoc exampleURL) 4 =
       Some (\<lparr>Items = [Item [''T''] [''p'' \<mapsto> [VString ''2'', VString ''1'']] []]\<rparr>, None)
   \<and> identifiedNodes (indexed (newParser refDoc exampleURL)) ''zz'' = None
   \<and> readRef (indexed (newParser refDoc exampleURL))
        (readItem (indexed (newParser refDoc exampleURL)) 4) NewItem ''zz'' = Some NewItem"
proof -
  let ?d = "\<lparr>Items = [Item [''T''] [''p'' \<mapsto> [VString ''2'', VString ''1'']] []]\<rparr>"
  have l1: "list_all (\<lambda>n. list_all (\<lambda>m. height m < height n)
                      (callees (indexed (newParser refDoc exampleURL)) n))
            (preorder refDoc)"
    by (simp add: refDoc_def refScope_def callees_def getAttr_def)
  have l2: "list_all (\<lambda>n. height n < 4) (preorder refDoc)"
    by (simp add: refDoc_def refScope_def)
  have e: "parse (newParser refDoc exampleURL) 4 = Some (?d, None)"
    by (simp add: refDoc_def refScope_def model_defs eval_nat_numeral)
  have z: "identifiedNodes (indexed (newParser refDoc exampleURL)) ''zz'' = None"
    by (simp add: refDoc_def refScope_def indexed_def scan_def scanNode_def getAttr_def
          newParser_def)
  have h1: "\<forall>n \<in> set (preorder refDoc).
      \<forall>m \<in> set (callees (indexed (newParser refDoc exampleURL)) n). height m < height n"
    using l1 by (simp add: list_all_iff)
  have h2: "\<forall>n \<in> set (preorder refDoc). height n < 4"
    using l2 by (simp add: list_all_iff)
  from parse_returns_nil_error [of "newParser refDoc exampleURL" 4 ?d None] e
  have r0: "(None :: error option) = None" by blast
  from parse_returns_nil_error [where t = refDoc and u = exampleURL and rank = height and k' = 4]
    h1 h2
  have r1: "\<exists>d'. parse (newParser refDoc exampleURL) 4 = Some (d', None)" by blast
  from parse_returns_nil_error
    [where tok = "''zz''" and p = "indexed (newParser refDoc exampleURL)"
       and rd = "readItem (indexed (newParser refDoc exampleURL)) 4" and item = NewItem] z
  have r2: "readRef (indexed (newParser refDoc exampleURL))
        (readItem (indexed (newParser refDoc exampleURL)) 4) NewItem ''zz'' = Some NewItem"
    by blast
  from l1 l2 e z r2 show ?thesis by simp
qed

end
